theory Spec2Isabelle
  imports Main
begin

section \<open>The gateway client of ClawSetup (GatewayClient.ts)\<close>

text \<open>
  The class \<^verbatim>\<open>GatewayClient\<close> owns a WebSocket, a table of pending requests and a
  reconnect timer. It is driven by the calls \<^verbatim>\<open>connect\<close>, \<^verbatim>\<open>disconnect\<close> and
  \<^verbatim>\<open>request\<close> and by the callbacks the browser runs on its sockets and timers. The
  model below passes one state record through every method and callback. The record
  holds the fields of the object and, next to them, the part of the browser the object
  acts on: the sockets it created, the timers it set, the promises it handed out and the
  calls it made to its two observers.
\<close>

subsection \<open>Parsed JSON values\<close>

text \<open>
  What \<^verbatim>\<open>JSON.parse\<close> returns. Numbers are kept as integers: the client never
  computes with a number, it only tests one for truthiness. A value of type
  \<open>json option\<close> is a JavaScript value that may be \<^verbatim>\<open>undefined\<close> (\<open>None\<close>).
\<close>

datatype json =
    JNull
  | JBool bool
  | JNum int
  | JStr string
  | JArr "json list"
  | JObj "(string \<times> json) list"

text \<open>
  Reading a property \<^verbatim>\<open>v.name\<close> of a parsed value other than \<^verbatim>\<open>null\<close>, for the
  names the client reads (type, id, ok, payload, error, event): only an object can own
  one of them; on a string, number, boolean or array the read gives \<^verbatim>\<open>undefined\<close>.
  An object is the list of its properties; a parsed object has each name once.
\<close>

fun get_prop :: "json \<Rightarrow> string \<Rightarrow> json option" where
  "get_prop (JObj kvs) name = map_of kvs name"
| "get_prop _ name = None"

text \<open>JavaScript truthiness, as \<^verbatim>\<open>if (frame.ok)\<close> tests it.\<close>

fun truthy :: "json option \<Rightarrow> bool" where
  "truthy None = False"
| "truthy (Some JNull) = False"
| "truthy (Some (JBool b)) = b"
| "truthy (Some (JNum n)) = (n \<noteq> 0)"
| "truthy (Some (JStr s)) = (s \<noteq> [])"
| "truthy (Some (JArr xs)) = True"
| "truthy (Some (JObj kvs)) = True"

subsection \<open>The pending table: a JavaScript Map with string keys\<close>

text \<open>
  A \<^verbatim>\<open>Map\<close> keeps insertion order; \<^verbatim>\<open>set\<close> on a key that is present replaces the
  value in place, on a new key it appends. The value stored under a request id is the
  pair of resolvers of one promise, modelled by the address of that promise.
\<close>

fun map_set :: "'k \<Rightarrow> 'v \<Rightarrow> ('k \<times> 'v) list \<Rightarrow> ('k \<times> 'v) list" where
  "map_set k v [] = [(k, v)]"
| "map_set k v ((k', v') # kvs) =
     (if k' = k then (k, v) # kvs else (k', v') # map_set k v kvs)"

definition map_delete :: "'k \<Rightarrow> ('k \<times> 'v) list \<Rightarrow> ('k \<times> 'v) list" where
  "map_delete k kvs = filter (\<lambda>kv. fst kv \<noteq> k) kvs"

text \<open>
  \<^verbatim>\<open>this.pending.get(frame.id)\<close> and \<^verbatim>\<open>this.pending.delete(frame.id)\<close>: the key
  comes from the frame and may be any value; every key of the table is a string, so only
  a string can be found.
\<close>

fun pending_get :: "(string \<times> nat) list \<Rightarrow> json option \<Rightarrow> nat option" where
  "pending_get tbl (Some (JStr i)) = map_of tbl i"
| "pending_get tbl _ = None"

fun pending_delete :: "json option \<Rightarrow> (string \<times> nat) list \<Rightarrow> (string \<times> nat) list" where
  "pending_delete (Some (JStr i)) tbl = map_delete i tbl"
| "pending_delete _ tbl = tbl"

subsection \<open>State\<close>

datatype ready_state = CONNECTING | OPEN | CLOSING | CLOSED

record websocket =
  readyState :: ready_state
  sent :: "json list"

datatype outcome = Resolved "json option" | Rejected "json option"

datatype js_error = Error string | TypeError | SyntaxError

text \<open>
  The fields \<open>url\<close>, \<open>token\<close>, \<open>ws\<close>, \<open>pending\<close> and \<open>reconnectTimer\<close> are those of
  the class (\<open>None\<close> is \<^verbatim>\<open>null\<close>). \<open>sockets\<close> is the store of WebSocket objects,
  addressed by allocation order (\<open>next_socket\<close> is the next free address), so that
  \<open>ws\<close> and the callbacks of older sockets can refer to different objects. \<open>timers\<close>
  lists the timeouts that are set and have not fired, as (handle, delay in ms);
  \<open>timer_seq\<close> is the last handle issued. \<open>promises\<close> is the store of the promises
  returned by \<^verbatim>\<open>request\<close> (\<open>None\<close>: not settled yet). \<open>event_calls\<close> and
  \<open>status_calls\<close> record the calls to \<^verbatim>\<open>this.onEvent\<close> and
  \<^verbatim>\<open>this.onStatusChange\<close> in the order they are made.
\<close>

record gateway =
  url :: string
  token :: string
  ws :: "nat option"
  pending :: "(string \<times> nat) list"
  reconnectTimer :: "nat option"
  sockets :: "nat \<Rightarrow> websocket"
  next_socket :: nat
  timers :: "(nat \<times> nat) list"
  timer_seq :: nat
  promises :: "nat \<Rightarrow> outcome option"
  next_promise :: nat
  event_calls :: "(json option \<times> json option) list"
  status_calls :: "bool list"

text \<open>\<^verbatim>\<open>new GatewayClient(url, token, onEvent, onStatusChange)\<close>.\<close>

definition init :: "string \<Rightarrow> string \<Rightarrow> gateway" where
  "init u t =
     \<lparr>url = u, token = t, ws = None, pending = [], reconnectTimer = None,
      sockets = (\<lambda>h. \<lparr>readyState = CLOSED, sent = []\<rparr>), next_socket = 0,
      timers = [], timer_seq = 0,
      promises = (\<lambda>p. None), next_promise = 0,
      event_calls = [], status_calls = []\<rparr>"

subsection \<open>The browser operations the client calls\<close>

text \<open>
  \<^verbatim>\<open>WebSocket.close()\<close>: a socket that is connecting or open starts closing; one that
  is closing or closed is left as it is. The close event comes later, from the browser.
\<close>

definition ws_close :: "nat \<Rightarrow> gateway \<Rightarrow> gateway" where
  "ws_close h s =
     (if readyState (sockets s h) = CLOSING \<or> readyState (sockets s h) = CLOSED then s
      else s\<lparr>sockets := (sockets s)(h := (sockets s h)\<lparr>readyState := CLOSING\<rparr>)\<rparr>)"

text \<open>\<^verbatim>\<open>WebSocket.send\<close> on an open socket; the model keeps the frame before serialisation.\<close>

definition ws_send :: "nat \<Rightarrow> json \<Rightarrow> gateway \<Rightarrow> gateway" where
  "ws_send h frame s =
     s\<lparr>sockets := (sockets s)(h := (sockets s h)\<lparr>sent := sent (sockets s h) @ [frame]\<rparr>)\<rparr>"

text \<open>
  Settling a promise through one of its resolvers: the first call decides, later calls
  do nothing.
\<close>

definition settle :: "nat \<Rightarrow> outcome \<Rightarrow> gateway \<Rightarrow> gateway" where
  "settle p out s =
     (if promises s p = None then s\<lparr>promises := (promises s)(p := Some out)\<rparr> else s)"

text \<open>\<^verbatim>\<open>if (this.reconnectTimer)\<close>: null is falsy, a timer handle is a number.\<close>

fun timer_set :: "nat option \<Rightarrow> bool" where
  "timer_set None = False"
| "timer_set (Some t) = (t \<noteq> 0)"

subsection \<open>The methods of GatewayClient\<close>

text \<open>
  \<^verbatim>\<open>connect()\<close>: creates a socket and stores it in \<^verbatim>\<open>this.ws\<close>. The four callbacks it
  installs are the functions \<open>onopen\<close>, \<open>onmessage\<close>, \<open>onclose\<close> and \<open>onerror\<close> below;
  every socket of the store was created here, so every socket has them.
\<close>

definition connect :: "gateway \<Rightarrow> gateway" where
  "connect s =
     s\<lparr>ws := Some (next_socket s),
       sockets := (sockets s)(next_socket s := \<lparr>readyState = CONNECTING, sent = []\<rparr>),
       next_socket := Suc (next_socket s)\<rparr>"

text \<open>
  \<^verbatim>\<open>scheduleReconnect()\<close>: does nothing when a timer is recorded, else sets a timeout of
  3000 ms and records its handle. Handles are positive integers, each one new.
\<close>

definition scheduleReconnect :: "gateway \<Rightarrow> gateway" where
  "scheduleReconnect s =
     (if timer_set (reconnectTimer s) then s
      else s\<lparr>reconnectTimer := Some (Suc (timer_seq s)),
             timers := timers s @ [(Suc (timer_seq s), 3000)],
             timer_seq := Suc (timer_seq s)\<rparr>)"

text \<open>The function given to \<^verbatim>\<open>setTimeout\<close>.\<close>

definition reconnect_callback :: "gateway \<Rightarrow> gateway" where
  "reconnect_callback s = connect (s\<lparr>reconnectTimer := None\<rparr>)"

definition transport_open :: "gateway \<Rightarrow> bool" where
  "transport_open s =
     (case ws s of None \<Rightarrow> False | Some h \<Rightarrow> readyState (sockets s h) = OPEN)"

text \<open>
  \<^verbatim>\<open>request(method, params = {})\<close>. The first argument of the model is the string
  that \<^verbatim>\<open>Math.random().toString(36).substring(2)\<close> yields in this call: the source
  takes it from the random generator and uses it unchecked. \<open>params\<close> is \<open>None\<close> when
  the caller passes none. The result is the error the call fails with, or the address of
  the new, unsettled promise the caller waits on.
\<close>

definition request_frame :: "string \<Rightarrow> string \<Rightarrow> json option \<Rightarrow> json" where
  "request_frame i method params =
     JObj [(''type'', JStr ''req''), (''id'', JStr i), (''method'', JStr method),
           (''params'', (case params of None \<Rightarrow> JObj [] | Some v \<Rightarrow> v))]"

definition request ::
  "string \<Rightarrow> string \<Rightarrow> json option \<Rightarrow> gateway \<Rightarrow> (js_error + nat) \<times> gateway" where
  "request rnd method params s =
     (case ws s of
        None \<Rightarrow> (Inl (Error ''Not connected to gateway''), s)
      | Some h \<Rightarrow>
          if readyState (sockets s h) \<noteq> OPEN
          then (Inl (Error ''Not connected to gateway''), s)
          else
            (Inr (next_promise s),
             ws_send h (request_frame rnd method params)
               (s\<lparr>promises := (promises s)(next_promise s := None),
                  next_promise := Suc (next_promise s),
                  pending := map_set rnd (next_promise s) (pending s)\<rparr>)))"

text \<open>
  \<^verbatim>\<open>authenticate()\<close>: sends the handshake request and awaits it inside try/catch; both
  outcomes are only written to the console, so what remains is the effect of the request.
\<close>

definition handshake_params :: "string \<Rightarrow> json" where
  "handshake_params tok =
     JObj [(''minProtocol'', JNum 3), (''maxProtocol'', JNum 3),
           (''client'', JObj [(''id'', JStr ''openclaw-macos''), (''version'', JStr ''0.1.0''),
                             (''platform'', JStr ''macos''), (''mode'', JStr ''webchat'')]),
           (''role'', JStr ''operator''),
           (''auth'', JObj [(''token'', JStr tok)])]"

definition authenticate :: "string \<Rightarrow> gateway \<Rightarrow> gateway" where
  "authenticate rnd s = snd (request rnd ''connect'' (Some (handshake_params (token s))) s)"

text \<open>\<^verbatim>\<open>disconnect()\<close>: \<^verbatim>\<open>this.ws?.close()\<close>.\<close>

definition disconnect :: "gateway \<Rightarrow> gateway" where
  "disconnect s = (case ws s of None \<Rightarrow> s | Some h \<Rightarrow> ws_close h s)"

subsection \<open>The socket callbacks\<close>

definition onopen :: "string \<Rightarrow> gateway \<Rightarrow> gateway" where
  "onopen rnd s = authenticate rnd (s\<lparr>status_calls := status_calls s @ [True]\<rparr>)"

text \<open>
  \<^verbatim>\<open>onmessage\<close>. The argument is the result of \<^verbatim>\<open>JSON.parse(event.data)\<close>, \<open>None\<close>
  when the data is not JSON text (the parse throws). Reading \<^verbatim>\<open>frame.type\<close> of
  \<^verbatim>\<open>null\<close> throws as well. Both exceptions leave the callback before it has changed
  anything. \<open>dispatch_frame\<close> is the body of the callback after the parse, for a frame
  other than \<^verbatim>\<open>null\<close>.
\<close>

definition dispatch_frame :: "json \<Rightarrow> gateway \<Rightarrow> gateway" where
  "dispatch_frame frame s =
     (if get_prop frame ''type'' = Some (JStr ''res'') then
        (case pending_get (pending s) (get_prop frame ''id'') of
           Some p \<Rightarrow>
             (if truthy (get_prop frame ''ok'')
              then settle p (Resolved (get_prop frame ''payload''))
              else settle p (Rejected (get_prop frame ''error'')))
             (s\<lparr>pending := pending_delete (get_prop frame ''id'') (pending s)\<rparr>)
         | None \<Rightarrow> s)
      else if get_prop frame ''type'' = Some (JStr ''event'') then
        s\<lparr>event_calls :=
            event_calls s @ [(get_prop frame ''event'', get_prop frame ''payload'')]\<rparr>
      else s)"

definition onmessage :: "json option \<Rightarrow> gateway \<Rightarrow> js_error + gateway" where
  "onmessage data s =
     (case data of
        None \<Rightarrow> Inl SyntaxError
      | Some frame \<Rightarrow> if frame = JNull then Inl TypeError else Inr (dispatch_frame frame s))"

definition onclose :: "gateway \<Rightarrow> gateway" where
  "onclose s = scheduleReconnect (s\<lparr>status_calls := status_calls s @ [False]\<rparr>)"

text \<open>\<^verbatim>\<open>onerror\<close>: \<^verbatim>\<open>this.ws?.close()\<close>, on the current socket.\<close>

definition onerror :: "gateway \<Rightarrow> gateway" where
  "onerror s = (case ws s of None \<Rightarrow> s | Some h \<Rightarrow> ws_close h s)"

subsection \<open>Runs of the client\<close>

text \<open>
  One step is a call of a public method or a callback run by the browser. The browser
  opens only a connecting socket, delivers messages on a socket that is open or closing,
  fires the close event once per socket, and fires a timer that is set. An exception
  thrown by \<open>onmessage\<close> ends that callback and the state stays as it was.
\<close>

datatype event =
    Connect
  | Disconnect
  | Request string string "json option"
  | WsOpen nat string
  | WsMessage nat "json option"
  | WsClose nat
  | WsError nat
  | TimerFire nat

definition set_ready :: "nat \<Rightarrow> ready_state \<Rightarrow> gateway \<Rightarrow> gateway" where
  "set_ready h r s = s\<lparr>sockets := (sockets s)(h := (sockets s h)\<lparr>readyState := r\<rparr>)\<rparr>"

fun step :: "event \<Rightarrow> gateway \<Rightarrow> gateway" where
  "step Connect s = connect s"
| "step Disconnect s = disconnect s"
| "step (Request rnd method params) s = snd (request rnd method params s)"
| "step (WsOpen h rnd) s =
     (if h < next_socket s \<and> readyState (sockets s h) = CONNECTING
      then onopen rnd (set_ready h OPEN s) else s)"
| "step (WsMessage h data) s =
     (if h < next_socket s \<and>
         (readyState (sockets s h) = OPEN \<or> readyState (sockets s h) = CLOSING)
      then (case onmessage data s of Inl e \<Rightarrow> s | Inr s' \<Rightarrow> s') else s)"
| "step (WsClose h) s =
     (if h < next_socket s \<and> readyState (sockets s h) \<noteq> CLOSED
      then onclose (set_ready h CLOSED s) else s)"
| "step (WsError h) s =
     (if h < next_socket s \<and> readyState (sockets s h) \<noteq> CLOSED then onerror s else s)"
| "step (TimerFire t) s =
     (if t \<in> fst ` set (timers s)
      then reconnect_callback (s\<lparr>timers := filter (\<lambda>td. fst td \<noteq> t) (timers s)\<rparr>)
      else s)"

fun run :: "event list \<Rightarrow> gateway \<Rightarrow> gateway" where
  "run [] s = s"
| "run (e # es) s = run es (step e s)"

subsection \<open>Invariants of the reachable states\<close>

text \<open>
  The pending table has one entry per id and one entry per promise, and the promise of
  every entry has been allocated and is not settled.
\<close>

definition pending_ok :: "gateway \<Rightarrow> bool" where
  "pending_ok s \<longleftrightarrow>
     distinct (map fst (pending s)) \<and> distinct (map snd (pending s)) \<and>
     list_all (\<lambda>kv. snd kv < next_promise s \<and> promises s (snd kv) = None) (pending s)"

text \<open>
  Either no reconnect is recorded and no timeout is set, or the recorded handle is that
  of the only timeout set, which has the delay 3000 ms.
\<close>

definition timer_ok :: "gateway \<Rightarrow> bool" where
  "timer_ok s =
     (case reconnectTimer s of
        None \<Rightarrow> timers s = []
      | Some t \<Rightarrow> t \<noteq> 0 \<and> timers s = [(t, 3000)])"

text \<open>What a response frame tells the caller: its payload, or its error.\<close>

definition response_outcome :: "json \<Rightarrow> outcome" where
  "response_outcome frame =
     (if truthy (get_prop frame ''ok'') then Resolved (get_prop frame ''payload'')
      else Rejected (get_prop frame ''error''))"

text \<open>
  The arguments \<^verbatim>\<open>onEvent\<close> is called with for one inbound message: those of the
  frame when the message is an event frame, none otherwise.
\<close>

definition event_args :: "json option \<Rightarrow> (json option \<times> json option) list" where
  "event_args data =
     (case data of
        None \<Rightarrow> []
      | Some frame \<Rightarrow>
          if get_prop frame ''type'' = Some (JStr ''event'')
          then [(get_prop frame ''event'', get_prop frame ''payload'')] else [])"

section \<open>Lemmas about the model\<close>

subsection \<open>The Map operations\<close>

lemma map_of_map_set: "map_of (map_set k v kvs) = (map_of kvs)(k \<mapsto> v)"
  by (induction kvs) auto

lemma keys_map_set: "fst ` set (map_set k v kvs) = insert k (fst ` set kvs)"
proof -
  have "dom (map_of (map_set k v kvs)) = insert k (dom (map_of kvs))"
    by (simp add: map_of_map_set)
  then show ?thesis
    by (simp only: dom_map_of_conv_image_fst)
qed

lemma set_map_set: "set (map_set k v kvs) \<subseteq> insert (k, v) (set kvs)"
  by (induction kvs) (auto split: if_splits)

lemma map_set_fresh: "k \<notin> fst ` set kvs \<Longrightarrow> map_set k v kvs = kvs @ [(k, v)]"
  by (induction kvs) auto

lemma distinct_keys_map_set:
  "distinct (map fst kvs) \<Longrightarrow> distinct (map fst (map_set k v kvs))"
  by (induction kvs) (auto simp: keys_map_set)

lemma vals_map_set: "snd ` set (map_set k v kvs) \<subseteq> insert v (snd ` set kvs)"
  using set_map_set [of k v kvs] by force

lemma distinct_vals_map_set:
  "distinct (map snd kvs) \<Longrightarrow> v \<notin> snd ` set kvs \<Longrightarrow> distinct (map snd (map_set k v kvs))"
proof (induction kvs)
  case Nil
  then show ?case by simp
next
  case (Cons a kvs)
  obtain k' v' where a: "a = (k', v')" by (cases a)
  show ?case
  proof (cases "k' = k")
    case True
    with Cons.prems a show ?thesis by auto
  next
    case False
    have "v' \<notin> snd ` set (map_set k v kvs)"
      using vals_map_set [of k v kvs] Cons.prems a by auto
    with False Cons a show ?thesis by auto
  qed
qed

lemma length_map_set_present:
  "k \<in> fst ` set kvs \<Longrightarrow> length (map_set k v kvs) = length kvs"
  by (induction kvs) force+

lemma map_of_map_delete: "map_of (map_delete k kvs) = (map_of kvs)(k := None)"
  by (induction kvs) (auto simp: map_delete_def)

lemma set_map_delete: "set (map_delete k kvs) \<subseteq> set kvs"
  by (auto simp: map_delete_def)

lemma distinct_keys_map_delete:
  "distinct (map fst kvs) \<Longrightarrow> distinct (map fst (map_delete k kvs))"
  by (simp add: map_delete_def distinct_map_filter)

lemma distinct_vals_map_delete:
  "distinct (map snd kvs) \<Longrightarrow> distinct (map snd (map_delete k kvs))"
  by (simp add: map_delete_def distinct_map_filter)

lemma deleted_val_gone:
  "distinct (map snd kvs) \<Longrightarrow> map_of kvs k = Some v \<Longrightarrow> v \<notin> snd ` set (map_delete k kvs)"
proof
  assume d: "distinct (map snd kvs)" and m: "map_of kvs k = Some v"
    and "v \<in> snd ` set (map_delete k kvs)"
  then obtain k' where k': "(k', v) \<in> set kvs" "k' \<noteq> k"
    by (auto simp: map_delete_def)
  from m have "(k, v) \<in> set kvs" by (rule map_of_SomeD)
  with k' d show False
    by (metis fst_conv snd_conv distinct_map inj_on_def)
qed

subsection \<open>What each method leaves alone\<close>

lemma connect_keeps [simp]:
  "timers (connect s) = timers s"
  "reconnectTimer (connect s) = reconnectTimer s"
  "pending (connect s) = pending s"
  "promises (connect s) = promises s"
  "next_promise (connect s) = next_promise s"
  by (simp_all add: connect_def)

lemma ws_close_keeps [simp]:
  "timers (ws_close h s) = timers s"
  "reconnectTimer (ws_close h s) = reconnectTimer s"
  "pending (ws_close h s) = pending s"
  "promises (ws_close h s) = promises s"
  "next_promise (ws_close h s) = next_promise s"
  "ws (ws_close h s) = ws s"
  by (simp_all add: ws_close_def)

lemma request_keeps [simp]:
  "timers (snd (request r m p s)) = timers s"
  "reconnectTimer (snd (request r m p s)) = reconnectTimer s"
  by (simp_all add: request_def ws_send_def split: option.splits)

lemma dispatch_keeps [simp]:
  "timers (dispatch_frame f s) = timers s"
  "reconnectTimer (dispatch_frame f s) = reconnectTimer s"
  "sockets (dispatch_frame f s) = sockets s"
  "next_socket (dispatch_frame f s) = next_socket s"
  "ws (dispatch_frame f s) = ws s"
  by (simp_all add: dispatch_frame_def settle_def split: option.splits)

lemma onmessage_Inr:
  "onmessage d s = Inr s' \<Longrightarrow> \<exists>f. d = Some f \<and> s' = dispatch_frame f s"
  by (auto simp: onmessage_def split: option.splits if_splits)

lemma scheduleReconnect_keeps [simp]:
  "pending (scheduleReconnect s) = pending s"
  "promises (scheduleReconnect s) = promises s"
  "next_promise (scheduleReconnect s) = next_promise s"
  by (simp_all add: scheduleReconnect_def)

subsection \<open>The timer invariant holds in every reachable state\<close>

lemma timer_ok_init: "timer_ok (init u t)"
  by (simp add: timer_ok_def init_def)

lemma timer_ok_scheduleReconnect: "timer_ok s \<Longrightarrow> timer_ok (scheduleReconnect s)"
  by (auto simp: timer_ok_def scheduleReconnect_def split: option.splits)

lemma timer_ok_reconnect_callback:
  "timer_ok s \<Longrightarrow> t \<in> fst ` set (timers s) \<Longrightarrow>
   timer_ok (reconnect_callback (s\<lparr>timers := filter (\<lambda>td. fst td \<noteq> t) (timers s)\<rparr>))"
  by (auto simp: timer_ok_def reconnect_callback_def split: option.splits)

lemma timer_ok_cong:
  "timers s' = timers s \<Longrightarrow> reconnectTimer s' = reconnectTimer s \<Longrightarrow> timer_ok s \<Longrightarrow> timer_ok s'"
  by (simp add: timer_ok_def split: option.splits)

lemma timer_ok_onclose: "timer_ok s \<Longrightarrow> timer_ok (onclose (set_ready h r s))"
  unfolding onclose_def
  by (rule timer_ok_scheduleReconnect) (simp add: timer_ok_def set_ready_def split: option.splits)

lemma timer_ok_step: "timer_ok s \<Longrightarrow> timer_ok (step e s)"
proof (cases e)
  case (WsMessage h d)
  then show "timer_ok s \<Longrightarrow> timer_ok (step e s)"
    by (auto split: sum.splits dest!: onmessage_Inr intro: timer_ok_cong [of _ s])
next
  case (WsClose h)
  then show "timer_ok s \<Longrightarrow> timer_ok (step e s)"
    by (simp add: timer_ok_onclose)
next
  case (TimerFire t)
  then show "timer_ok s \<Longrightarrow> timer_ok (step e s)"
    using timer_ok_reconnect_callback [of s t] by auto
qed (auto simp: timer_ok_def disconnect_def onerror_def onopen_def authenticate_def set_ready_def
       split: option.splits)

lemma timer_ok_run: "timer_ok s \<Longrightarrow> timer_ok (run es s)"
  by (induction es arbitrary: s) (auto intro: timer_ok_step)

subsection \<open>The pending-table invariant holds in every reachable state\<close>

lemma pending_ok_init: "pending_ok (init u t)"
  by (simp add: pending_ok_def init_def)

lemma pending_ok_vals_below:
  "pending_ok s \<Longrightarrow> v \<in> snd ` set (pending s) \<Longrightarrow> v < next_promise s \<and> promises s v = None"
  by (auto simp: pending_ok_def list_all_iff)

lemma pending_ok_lookup:
  "pending_ok s \<Longrightarrow> map_of (pending s) i = Some p \<Longrightarrow> p < next_promise s \<and> promises s p = None"
  by (rule pending_ok_vals_below) (auto dest: map_of_SomeD intro: rev_image_eqI)

lemma pending_ok_register:
  assumes ok: "pending_ok s"
  shows "pending_ok (s\<lparr>promises := (promises s)(next_promise s := None),
                        next_promise := Suc (next_promise s),
                        pending := map_set r (next_promise s) (pending s)\<rparr>)"
proof -
  let ?np = "next_promise s"
  let ?tbl = "map_set r ?np (pending s)"
  from ok have fresh: "?np \<notin> snd ` set (pending s)"
    using pending_ok_vals_below [of s ?np] by auto
  have d1: "distinct (map fst ?tbl)"
    using ok by (simp add: pending_ok_def distinct_keys_map_set)
  have d2: "distinct (map snd ?tbl)"
    using ok fresh by (simp add: pending_ok_def distinct_vals_map_set)
  have "v < Suc ?np \<and> ((promises s)(?np := None)) v = None" if "v \<in> snd ` set ?tbl" for v
  proof -
    from that vals_map_set [of r ?np "pending s"] have "v = ?np \<or> v \<in> snd ` set (pending s)"
      by auto
    then show ?thesis
    proof
      assume "v = ?np"
      then show ?thesis by simp
    next
      assume "v \<in> snd ` set (pending s)"
      from pending_ok_vals_below [OF ok this] show ?thesis by auto
    qed
  qed
  then have d3: "list_all (\<lambda>kv. snd kv < Suc ?np \<and> ((promises s)(?np := None)) (snd kv) = None) ?tbl"
    by (auto simp: list_all_iff)
  from d1 d2 d3 show ?thesis
    by (simp add: pending_ok_def)
qed

lemma pending_ok_request: "pending_ok s \<Longrightarrow> pending_ok (snd (request r m p s))"
  using pending_ok_register [of s r]
  by (auto simp: request_def ws_send_def pending_ok_def split: option.splits)

lemma pending_ok_settle_delete:
  assumes ok: "pending_ok s" and look: "map_of (pending s) i = Some p"
  shows "pending_ok (settle p out (s\<lparr>pending := map_delete i (pending s)\<rparr>))"
proof -
  let ?tbl = "map_delete i (pending s)"
  from ok look have gone: "p \<notin> snd ` set ?tbl"
    by (simp add: pending_ok_def deleted_val_gone)
  have "v < next_promise s \<and> ((promises s)(p := Some out)) v = None" if "v \<in> snd ` set ?tbl" for v
  proof -
    from that set_map_delete [of i "pending s"] have "v \<in> snd ` set (pending s)" by auto
    with pending_ok_vals_below [OF ok] that gone show ?thesis by auto
  qed
  then have "list_all (\<lambda>kv. snd kv < next_promise s \<and> ((promises s)(p := Some out)) (snd kv) = None) ?tbl"
    by (auto simp: list_all_iff)
  moreover have "promises s p = None"
    using pending_ok_lookup [OF ok look] by simp
  ultimately show ?thesis
    using ok by (simp add: pending_ok_def settle_def distinct_keys_map_delete distinct_vals_map_delete)
qed

lemma pending_get_Some:
  "pending_get tbl k = Some p \<Longrightarrow> \<exists>i. k = Some (JStr i) \<and> map_of tbl i = Some p"
  by (cases "(tbl, k)" rule: pending_get.cases) auto

lemma dispatch_response:
  assumes "get_prop frame ''type'' = Some (JStr ''res'')"
    and "get_prop frame ''id'' = Some (JStr i)"
    and "map_of (pending s) i = Some p"
  shows "dispatch_frame frame s =
         settle p (response_outcome frame) (s\<lparr>pending := map_delete i (pending s)\<rparr>)"
  using assms by (simp add: dispatch_frame_def response_outcome_def)

lemma dispatch_unmatched:
  assumes "get_prop frame ''type'' = Some (JStr ''res'')"
    and "pending_get (pending s) (get_prop frame ''id'') = None"
  shows "dispatch_frame frame s = s"
  using assms by (simp add: dispatch_frame_def)

lemma dispatch_event:
  assumes "get_prop frame ''type'' = Some (JStr ''event'')"
  shows "dispatch_frame frame s =
         s\<lparr>event_calls := event_calls s @ [(get_prop frame ''event'', get_prop frame ''payload'')]\<rparr>"
  using assms by (simp add: dispatch_frame_def)

lemma dispatch_other:
  assumes "get_prop frame ''type'' \<noteq> Some (JStr ''res'')"
    and "get_prop frame ''type'' \<noteq> Some (JStr ''event'')"
  shows "dispatch_frame frame s = s"
  using assms by (simp add: dispatch_frame_def)

lemma onmessage_frame:
  "get_prop frame ''type'' = Some v \<Longrightarrow> onmessage (Some frame) s = Inr (dispatch_frame frame s)"
  by (auto simp: onmessage_def)

lemma pending_ok_dispatch:
  assumes ok: "pending_ok s"
  shows "pending_ok (dispatch_frame f s)"
proof (cases "get_prop f ''type'' = Some (JStr ''res'')")
  case res: True
  show ?thesis
  proof (cases "pending_get (pending s) (get_prop f ''id'')")
    case None
    with res ok show ?thesis by (simp add: dispatch_unmatched)
  next
    case (Some p)
    then obtain i where i: "get_prop f ''id'' = Some (JStr i)" "map_of (pending s) i = Some p"
      by (auto dest: pending_get_Some)
    with res ok show ?thesis
      by (simp add: dispatch_response pending_ok_settle_delete)
  qed
next
  case nres: False
  show ?thesis
  proof (cases "get_prop f ''type'' = Some (JStr ''event'')")
    case True
    have "pending_ok (s\<lparr>event_calls := event_calls s @ [(get_prop f ''event'', get_prop f ''payload'')]\<rparr>)"
      using ok by (simp add: pending_ok_def)
    with True show ?thesis by (simp only: dispatch_event)
  next
    case False
    with nres ok show ?thesis by (simp add: dispatch_other)
  qed
qed

lemma pending_ok_onmessage: "pending_ok s \<Longrightarrow> onmessage d s = Inr s' \<Longrightarrow> pending_ok s'"
  by (auto dest!: onmessage_Inr intro: pending_ok_dispatch)

lemma pending_ok_step: "pending_ok s \<Longrightarrow> pending_ok (step e s)"
proof (cases e)
  case (Request r m p)
  then show "pending_ok s \<Longrightarrow> pending_ok (step e s)"
    by (simp add: pending_ok_request)
next
  case (WsOpen h r)
  have "pending_ok (set_ready h OPEN s\<lparr>status_calls := status_calls s @ [True]\<rparr>)" if "pending_ok s"
    using that by (simp add: pending_ok_def set_ready_def)
  with WsOpen show "pending_ok s \<Longrightarrow> pending_ok (step e s)"
    by (simp add: onopen_def authenticate_def pending_ok_request set_ready_def)
next
  case (WsMessage h d)
  then show "pending_ok s \<Longrightarrow> pending_ok (step e s)"
    by (auto split: sum.splits intro: pending_ok_onmessage)
qed (auto simp: pending_ok_def disconnect_def onerror_def onclose_def set_ready_def
       reconnect_callback_def split: option.splits)

lemma pending_ok_run: "pending_ok s \<Longrightarrow> pending_ok (run es s)"
  by (induction es arbitrary: s) (auto intro: pending_ok_step)

subsection \<open>Responses\<close>

lemma step_message_open:
  "h < next_socket s \<Longrightarrow> readyState (sockets s h) = OPEN \<Longrightarrow> get_prop f ''type'' = Some v \<Longrightarrow>
   step (WsMessage h (Some f)) s = dispatch_frame f s"
  by (simp add: onmessage_frame)

lemma dispatch_response_fields:
  assumes ok: "pending_ok s"
    and ty: "get_prop f ''type'' = Some (JStr ''res'')"
    and idf: "get_prop f ''id'' = Some (JStr i)"
    and look: "map_of (pending s) i = Some p"
  shows "promises (dispatch_frame f s) = (promises s)(p := Some (response_outcome f))"
    and "pending (dispatch_frame f s) = map_delete i (pending s)"
    and "map_of (pending (dispatch_frame f s)) = (map_of (pending s))(i := None)"
proof -
  have none: "promises s p = None"
    using pending_ok_lookup [OF ok look] by simp
  show "promises (dispatch_frame f s) = (promises s)(p := Some (response_outcome f))"
    using none by (simp add: dispatch_response [OF ty idf look] settle_def)
  show "pending (dispatch_frame f s) = map_delete i (pending s)"
    by (simp add: dispatch_response [OF ty idf look] settle_def)
  then show "map_of (pending (dispatch_frame f s)) = (map_of (pending s))(i := None)"
    by (simp add: map_of_map_delete)
qed

lemma pending_ok_distinct_promises:
  assumes ok: "pending_ok s" and "map_of (pending s) i = Some p" and "map_of (pending s) j = Some q"
    and "i \<noteq> j"
  shows "p \<noteq> q"
proof
  assume "p = q"
  from assms(2,3) have mem: "(i, p) \<in> set (pending s)" "(j, q) \<in> set (pending s)"
    by (auto dest: map_of_SomeD)
  from ok have inj: "inj_on snd (set (pending s))"
    by (simp add: pending_ok_def distinct_map)
  have "(i, p) = (j, q)"
    by (rule inj_onD [OF inj _ mem]) (simp add: \<open>p = q\<close>)
  with \<open>i \<noteq> j\<close> show False by simp
qed

lemma reachable_ok: "pending_ok (run evs (init u t))" "timer_ok (run evs (init u t))"
  by (simp_all add: pending_ok_run pending_ok_init timer_ok_run timer_ok_init)

text \<open>Two outstanding requests and their responses, delivered one after the other.\<close>

lemma two_responses:
  assumes ok: "pending_ok s"
    and op: "h < next_socket s" "readyState (sockets s h) = OPEN"
    and f: "get_prop f ''type'' = Some (JStr ''res'')" "get_prop f ''id'' = Some (JStr i)"
    and g: "get_prop g ''type'' = Some (JStr ''res'')" "get_prop g ''id'' = Some (JStr j)"
    and pi: "map_of (pending s) i = Some p" and pj: "map_of (pending s) j = Some q"
    and ne: "i \<noteq> j"
  shows "promises (run [WsMessage h (Some f), WsMessage h (Some g)] s) =
         (promises s)(p := Some (response_outcome f), q := Some (response_outcome g))"
proof -
  let ?s1 = "dispatch_frame f s"
  have s1: "step (WsMessage h (Some f)) s = ?s1"
    by (rule step_message_open [OF op f(1)])
  have ok1: "pending_ok ?s1"
    using ok by (rule pending_ok_dispatch)
  have look1: "map_of (pending ?s1) j = Some q"
    using dispatch_response_fields(3) [OF ok f pi] pj ne by simp
  have op1: "h < next_socket ?s1" "readyState (sockets ?s1 h) = OPEN"
    using op by simp_all
  have s2: "step (WsMessage h (Some g)) ?s1 = dispatch_frame g ?s1"
    by (rule step_message_open [OF op1 g(1)])
  have "promises (dispatch_frame g ?s1) = (promises ?s1)(q := Some (response_outcome g))"
    using dispatch_response_fields(1) [OF ok1 g look1] .
  also have "promises ?s1 = (promises s)(p := Some (response_outcome f))"
    using dispatch_response_fields(1) [OF ok f pi] .
  finally show ?thesis
    by (simp only: run.simps s1 s2)
qed

lemma pending_get_no_key:
  "\<forall>i \<in> fst ` set tbl. k \<noteq> Some (JStr i) \<Longrightarrow> pending_get tbl k = None"
  by (cases "(tbl, k)" rule: pending_get.cases) (auto simp: map_of_eq_None_iff)

subsection \<open>Timers\<close>

lemma timer_ok_short: "timer_ok s \<Longrightarrow> length (timers s) \<le> 1"
  by (simp add: timer_ok_def split: option.splits)

lemma timer_ok_empty_iff: "timer_ok s \<Longrightarrow> timers s = [] \<longleftrightarrow> reconnectTimer s = None"
  by (simp add: timer_ok_def split: option.splits)

lemma timer_ok_delays: "timer_ok s \<Longrightarrow> td \<in> set (timers s) \<Longrightarrow> snd td = 3000"
  by (auto simp: timer_ok_def split: option.splits)

lemma timers_onclose:
  "timer_ok s \<Longrightarrow>
   timers (onclose s) = (if timers s = [] then [(Suc (timer_seq s), 3000)] else timers s)"
  by (auto simp: timer_ok_def onclose_def scheduleReconnect_def split: option.splits)

lemma timers_step_close:
  "timer_ok s \<Longrightarrow> h < next_socket s \<Longrightarrow> readyState (sockets s h) \<noteq> CLOSED \<Longrightarrow>
   timers (step (WsClose h) s) = (if timers s = [] then [(Suc (timer_seq s), 3000)] else timers s)"
  by (auto simp: timer_ok_def onclose_def set_ready_def scheduleReconnect_def split: option.splits)

lemma timers_step_close_set:
  "timer_ok s \<Longrightarrow> timers s \<noteq> [] \<Longrightarrow> timers (step (WsClose h) s) = timers s"
  by (auto simp: timer_ok_def onclose_def set_ready_def scheduleReconnect_def split: option.splits)

lemma timers_more_closes:
  "timer_ok s \<Longrightarrow> timers s \<noteq> [] \<Longrightarrow> timers (run (map WsClose hs) s) = timers s"
proof (induction hs arbitrary: s)
  case Nil
  then show ?case by simp
next
  case (Cons h hs)
  have eq: "timers (step (WsClose h) s) = timers s"
    using Cons.prems by (rule timers_step_close_set)
  have "timers (run (map WsClose hs) (step (WsClose h) s)) = timers (step (WsClose h) s)"
    using Cons.prems eq by (intro Cons.IH timer_ok_step) simp_all
  with eq show ?case by simp
qed

subsection \<open>Requests\<close>

lemma request_open:
  assumes "ws s = Some h" and "readyState (sockets s h) = OPEN"
  shows "request rnd m p s =
    (Inr (next_promise s),
     ws_send h (request_frame rnd m p)
       (s\<lparr>promises := (promises s)(next_promise s := None),
          next_promise := Suc (next_promise s),
          pending := map_set rnd (next_promise s) (pending s)\<rparr>))"
  using assms by (simp add: request_def)

lemma pending_request_open:
  assumes "ws s = Some h" and "readyState (sockets s h) = OPEN"
  shows "pending (snd (request rnd m p s)) = map_set rnd (next_promise s) (pending s)"
  by (simp add: request_open [OF assms] ws_send_def)

lemma step_message_not_frame:
  assumes "get_prop f ''type'' \<noteq> Some (JStr ''res'')"
    and "get_prop f ''type'' \<noteq> Some (JStr ''event'')"
  shows "step (WsMessage h (Some f)) s = s"
  using assms by (simp add: onmessage_def dispatch_other)

subsection \<open>Events\<close>

lemma step_message_keeps_sockets:
  "sockets (step (WsMessage h d) s) = sockets s \<and> next_socket (step (WsMessage h d) s) = next_socket s"
  by (auto simp: onmessage_def split: option.splits)

lemma event_calls_dispatch:
  "event_calls (dispatch_frame f s) = event_calls s @ event_args (Some f)"
  by (simp add: dispatch_frame_def event_args_def settle_def split: option.splits)

lemma pending_promises_dispatch_event:
  "get_prop f ''type'' = Some (JStr ''event'') \<Longrightarrow>
   pending (dispatch_frame f s) = pending s \<and> promises (dispatch_frame f s) = promises s"
  by (simp add: dispatch_event)

lemma event_calls_step_message:
  assumes "h < next_socket s" and "readyState (sockets s h) = OPEN"
  shows "event_calls (step (WsMessage h d) s) = event_calls s @ event_args d"
proof (cases d)
  case None
  then show ?thesis by (simp add: onmessage_def event_args_def)
next
  case (Some f)
  show ?thesis
  proof (cases "f = JNull")
    case True
    with Some show ?thesis by (simp add: onmessage_def event_args_def)
  next
    case False
    with Some assms show ?thesis
      by (simp add: onmessage_def event_calls_dispatch)
  qed
qed

lemma event_calls_messages:
  "h < next_socket s \<Longrightarrow> readyState (sockets s h) = OPEN \<Longrightarrow>
   event_calls (run (map (WsMessage h) ds) s) = event_calls s @ concat (map event_args ds)"
proof (induction ds arbitrary: s)
  case Nil
  then show ?case by simp
next
  case (Cons d ds)
  let ?s1 = "step (WsMessage h d) s"
  have op1: "h < next_socket ?s1" "readyState (sockets ?s1 h) = OPEN"
    using Cons.prems by (simp_all only: step_message_keeps_sockets)
  have "event_calls (run (map (WsMessage h) ds) ?s1) = event_calls ?s1 @ concat (map event_args ds)"
    using op1 by (rule Cons.IH)
  also have "event_calls ?s1 = event_calls s @ event_args d"
    using Cons.prems by (rule event_calls_step_message)
  finally show ?case by simp
qed

lemma event_frames_only:
  "h < next_socket s \<Longrightarrow> readyState (sockets s h) = OPEN \<Longrightarrow>
   \<forall>f \<in> set fs. get_prop f ''type'' = Some (JStr ''event'') \<Longrightarrow>
   pending (run (map (\<lambda>f. WsMessage h (Some f)) fs) s) = pending s \<and>
   promises (run (map (\<lambda>f. WsMessage h (Some f)) fs) s) = promises s"
proof (induction fs arbitrary: s)
  case Nil
  then show ?case by simp
next
  case (Cons f fs)
  let ?s1 = "step (WsMessage h (Some f)) s"
  from Cons.prems have ev: "get_prop f ''type'' = Some (JStr ''event'')" by simp
  have s1: "?s1 = dispatch_frame f s"
    by (rule step_message_open [OF Cons.prems(1,2) ev])
  have op1: "h < next_socket ?s1" "readyState (sockets ?s1 h) = OPEN"
    using Cons.prems by (simp_all only: step_message_keeps_sockets)
  have rest: "\<forall>f \<in> set fs. get_prop f ''type'' = Some (JStr ''event'')"
    using Cons.prems by simp
  have "pending (run (map (\<lambda>f. WsMessage h (Some f)) fs) ?s1) = pending ?s1 \<and>
        promises (run (map (\<lambda>f. WsMessage h (Some f)) fs) ?s1) = promises ?s1"
    using op1 rest by (rule Cons.IH)
  moreover have "pending ?s1 = pending s \<and> promises ?s1 = promises s"
    unfolding s1 using ev by (rule pending_promises_dispatch_event)
  ultimately show ?case by simp
qed

lemma event_args_events:
  "\<forall>f \<in> set fs. get_prop f ''type'' = Some (JStr ''event'') \<Longrightarrow>
   concat (map event_args (map Some fs)) = map (\<lambda>f. (get_prop f ''event'', get_prop f ''payload'')) fs"
  by (induction fs) (simp_all add: event_args_def)

subsection \<open>Reconnecting\<close>

lemma pending_after_reconnect:
  "pending (step (WsOpen (next_socket s) rnd) (connect s)) = map_set rnd (next_promise s) (pending s)"
  by (simp add: connect_def onopen_def set_ready_def authenticate_def request_def ws_send_def)

lemma sockets_after_reconnect:
  "next_socket s < next_socket (step (WsOpen (next_socket s) rnd) (connect s)) \<and>
   readyState (sockets (step (WsOpen (next_socket s) rnd) (connect s)) (next_socket s)) = OPEN"
  by (simp add: connect_def onopen_def set_ready_def authenticate_def request_def ws_send_def)

lemma response_after_reconnect:
  assumes ok: "pending_ok s"
    and look: "map_of (pending s) i = Some p"
    and f: "get_prop f ''type'' = Some (JStr ''res'')" "get_prop f ''id'' = Some (JStr i)"
    and ne: "rnd \<noteq> i"
  shows "promises (run [Connect, WsOpen (next_socket s) rnd, WsMessage (next_socket s) (Some f)] s) p =
         Some (response_outcome f)"
proof -
  let ?s2 = "step (WsOpen (next_socket s) rnd) (connect s)"
  have "pending_ok (step (WsOpen (next_socket s) rnd) (step Connect s))"
    by (intro pending_ok_step ok)
  then have ok2: "pending_ok ?s2"
    by (simp only: step.simps(1))
  have look2: "map_of (pending ?s2) i = Some p"
    unfolding pending_after_reconnect using look ne by (simp add: map_of_map_set)
  have op2: "next_socket s < next_socket ?s2" "readyState (sockets ?s2 (next_socket s)) = OPEN"
    using sockets_after_reconnect [of s rnd] by simp_all
  have m: "step (WsMessage (next_socket s) (Some f)) ?s2 = dispatch_frame f ?s2"
    by (rule step_message_open [OF op2 f(1)])
  have d: "promises (dispatch_frame f ?s2) = (promises ?s2)(p := Some (response_outcome f))"
    by (rule dispatch_response_fields(1) [OF ok2 f look2])
  have "run [Connect, WsOpen (next_socket s) rnd, WsMessage (next_socket s) (Some f)] s =
        dispatch_frame f ?s2"
    by (simp only: run.simps step.simps(1) m)
  then show ?thesis
    by (simp only: d fun_upd_same)
qed
section \<open>The claims\<close>

text \<open>The definitions a concrete run unfolds.\<close>

lemmas eval_defs = init_def connect_def disconnect_def onopen_def onclose_def onerror_def
  authenticate_def request_def request_frame_def ws_send_def ws_close_def set_ready_def
  onmessage_def dispatch_frame_def settle_def scheduleReconnect_def reconnect_callback_def
  map_delete_def transport_open_def

subsection \<open>C1: what a transport close does to the pending table\<close>

text \<open>
  C1 as stated fails. The client connects, the socket opens (the handshake request gets
  the id a), the caller sends a request with the id b, and the socket closes. After the
  close both entries are still in the pending table and neither promise is settled.
\<close>

theorem C1_counterexample:
  "pending (run [Connect, WsOpen 0 ''a'', Request ''b'' ''status'' None, WsClose 0]
             (init ''u'' ''t'')) = [(''a'', 0), (''b'', 1)] \<and>
   promises (run [Connect, WsOpen 0 ''a'', Request ''b'' ''status'' None, WsClose 0]
             (init ''u'' ''t'')) 0 = None \<and>
   promises (run [Connect, WsOpen 0 ''a'', Request ''b'' ''status'' None, WsClose 0]
             (init ''u'' ''t'')) 1 = None"
  by (simp add: eval_defs)

text \<open>
  C1, amended: when the transport closes, the pending-request table is left exactly as it
  was and no promise is settled. The close callback does two things and nothing else: it
  reports \<open>False\<close> to the status observer, and it schedules a reconnect if none is
  scheduled (it sets one timeout of 3000 ms and records its handle); when one is
  scheduled it sets none. The transport handle, the sockets and the calls to the event
  handler are as before. The close event of a socket \<open>h\<close> is this callback, run once
  the browser has marked \<open>h\<close> closed. In a reachable state the callback adds a timeout
  exactly when none is set, and a reconnect is recorded afterwards.
\<close>

theorem C1_close_keeps_pending:
  "onclose s =
     (if timer_set (reconnectTimer s)
      then s\<lparr>status_calls := status_calls s @ [False]\<rparr>
      else s\<lparr>status_calls := status_calls s @ [False],
             reconnectTimer := Some (Suc (timer_seq s)),
             timers := timers s @ [(Suc (timer_seq s), 3000)],
             timer_seq := Suc (timer_seq s)\<rparr>) \<and>
   pending (onclose s) = pending s \<and> promises (onclose s) = promises s \<and>
   ws (onclose s) = ws s \<and> sockets (onclose s) = sockets s \<and>
   event_calls (onclose s) = event_calls s \<and>
   status_calls (onclose s) = status_calls s @ [False] \<and>
   pending (step (WsClose h) s) = pending s \<and> promises (step (WsClose h) s) = promises s \<and>
   ws (step (WsClose h) s) = ws s \<and> event_calls (step (WsClose h) s) = event_calls s \<and>
   (h < next_socket s \<and> readyState (sockets s h) \<noteq> CLOSED \<longrightarrow>
      step (WsClose h) s =
        onclose (s\<lparr>sockets := (sockets s)(h := (sockets s h)\<lparr>readyState := CLOSED\<rparr>)\<rparr>)) \<and>
   (\<forall>evs u t. s = run evs (init u t) \<longrightarrow>
      timers (onclose s) = (if timers s = [] then [(Suc (timer_seq s), 3000)] else timers s) \<and>
      reconnectTimer (onclose s) \<noteq> None)"
proof -
  have a: "onclose s =
     (if timer_set (reconnectTimer s)
      then s\<lparr>status_calls := status_calls s @ [False]\<rparr>
      else s\<lparr>status_calls := status_calls s @ [False],
             reconnectTimer := Some (Suc (timer_seq s)),
             timers := timers s @ [(Suc (timer_seq s), 3000)],
             timer_seq := Suc (timer_seq s)\<rparr>)"
    by (simp add: onclose_def scheduleReconnect_def)
  have b: "pending (onclose s) = pending s \<and> promises (onclose s) = promises s \<and>
   ws (onclose s) = ws s \<and> sockets (onclose s) = sockets s \<and>
   event_calls (onclose s) = event_calls s \<and>
   status_calls (onclose s) = status_calls s @ [False]"
    by (simp add: onclose_def scheduleReconnect_def)
  have c: "pending (step (WsClose h) s) = pending s \<and> promises (step (WsClose h) s) = promises s \<and>
   ws (step (WsClose h) s) = ws s \<and> event_calls (step (WsClose h) s) = event_calls s"
    by (simp add: onclose_def set_ready_def scheduleReconnect_def)
  have d: "h < next_socket s \<and> readyState (sockets s h) \<noteq> CLOSED \<longrightarrow>
      step (WsClose h) s =
        onclose (s\<lparr>sockets := (sockets s)(h := (sockets s h)\<lparr>readyState := CLOSED\<rparr>)\<rparr>)"
    by (simp add: set_ready_def)
  have e: "\<forall>evs u t. s = run evs (init u t) \<longrightarrow>
      timers (onclose s) = (if timers s = [] then [(Suc (timer_seq s), 3000)] else timers s) \<and>
      reconnectTimer (onclose s) \<noteq> None"
  proof (intro allI impI)
    fix evs u t
    assume reach: "s = run evs (init u t)"
    have ok: "timer_ok s"
      unfolding reach by (rule reachable_ok)
    have "timer_ok (onclose s)"
      using timer_ok_onclose [OF ok, of h "readyState (sockets s h)"]
      by (simp add: set_ready_def)
    moreover have "timers (onclose s) \<noteq> []"
      by (simp add: timers_onclose [OF ok])
    ultimately have "reconnectTimer (onclose s) \<noteq> None"
      by (simp add: timer_ok_empty_iff)
    with timers_onclose [OF ok]
    show "timers (onclose s) = (if timers s = [] then [(Suc (timer_seq s), 3000)] else timers s) \<and>
      reconnectTimer (onclose s) \<noteq> None"
      by simp
  qed
  from a b c d e show ?thesis
    by (elim conjE) (intro conjI; assumption)
qed

text \<open>
  C1, amended, at the run of the counterexample: the table still holds a and b, the
  observer has been told \<open>False\<close>, and the timeout 1 is set.
\<close>

theorem C1_close_keeps_pending_witness:
  "pending (step (WsClose 0) (run [Connect, WsOpen 0 ''a'', Request ''b'' ''status'' None]
             (init ''u'' ''t''))) = [(''a'', 0), (''b'', 1)] \<and>
   status_calls (onclose (run [Connect, WsOpen 0 ''a'', Request ''b'' ''status'' None]
             (init ''u'' ''t''))) = [True, False] \<and>
   timers (onclose (run [Connect, WsOpen 0 ''a'', Request ''b'' ''status'' None]
             (init ''u'' ''t''))) = [(1, 3000)]"
proof -
  let ?s = "run [Connect, WsOpen 0 ''a'', Request ''b'' ''status'' None] (init ''u'' ''t'')"
  have p: "pending ?s = [(''a'', 0), (''b'', 1)]" by (simp add: eval_defs)
  have c: "status_calls ?s = [True]" by (simp add: eval_defs)
  have t: "timers ?s = []" by (simp add: eval_defs)
  have q: "timer_seq ?s = 0" by (simp add: eval_defs)
  note inst = C1_close_keeps_pending [of ?s 0]
  from inst have 1: "pending (step (WsClose 0) ?s) = pending ?s"
    by (elim conjE)
  from inst have 2: "status_calls (onclose ?s) = status_calls ?s @ [False]"
    by (elim conjE)
  from inst have "\<forall>evs u t. ?s = run evs (init u t) \<longrightarrow>
      timers (onclose ?s) = (if timers ?s = [] then [(Suc (timer_seq ?s), 3000)] else timers ?s) \<and>
      reconnectTimer (onclose ?s) \<noteq> None"
    by (elim conjE)
  from this [rule_format, OF refl, THEN conjunct1]
  have 3: "timers (onclose ?s) = (if timers ?s = [] then [(Suc (timer_seq ?s), 3000)] else timers ?s)" .
  have t3: "timers (onclose ?s) = [(1, 3000)]"
    unfolding 3 unfolding t q by simp
  from 1 [unfolded p] 2 [unfolded c] t3 show ?thesis by simp
qed

subsection \<open>C2: disconnect and the reconnect timer\<close>

text \<open>
  C2 as stated fails. The client connects, the socket opens, the caller calls
  \<^verbatim>\<open>disconnect()\<close>, and the browser reports the close of the socket: a reconnect timer
  is now set, and when it fires the client holds a new, connecting socket, although the
  caller never called \<^verbatim>\<open>connect()\<close> again.
\<close>

theorem C2_counterexample:
  "reconnectTimer (run [Connect, WsOpen 0 ''a'', Disconnect, WsClose 0] (init ''u'' ''t'')) = Some 1 \<and>
   timers (run [Connect, WsOpen 0 ''a'', Disconnect, WsClose 0] (init ''u'' ''t'')) = [(1, 3000)] \<and>
   ws (run [Connect, WsOpen 0 ''a'', Disconnect, WsClose 0, TimerFire 1] (init ''u'' ''t'')) = Some 1 \<and>
   readyState (sockets (run [Connect, WsOpen 0 ''a'', Disconnect, WsClose 0, TimerFire 1]
                          (init ''u'' ''t'')) 1) = CONNECTING"
  by (simp add: eval_defs)

text \<open>
  C2, amended: \<^verbatim>\<open>disconnect()\<close> only asks the current transport to close. It changes
  nothing but the socket store, where the current socket becomes CLOSING if it was open
  or connecting; the reconnect timer, the timeouts, the pending table and the promises
  are as before, whether or not a reconnect is scheduled (a scheduled reconnect is not
  cancelled). When the close event of that transport then arrives, a reconnect is
  scheduled as after any other close: if none is recorded, one timeout of 3000 ms is set;
  if one is recorded (in a reachable state), it stays the only timeout. In both cases,
  when the timeout fires \<^verbatim>\<open>connect()\<close> runs again and the client holds a new,
  connecting transport.
\<close>

theorem C2_disconnect_then_reconnect:
  "(disconnect s)\<lparr>sockets := sockets s\<rparr> = s \<and>
   reconnectTimer (disconnect s) = reconnectTimer s \<and> timers (disconnect s) = timers s \<and>
   timer_seq (disconnect s) = timer_seq s \<and> pending (disconnect s) = pending s \<and>
   promises (disconnect s) = promises s \<and> ws (disconnect s) = ws s \<and>
   (\<forall>k. sockets (disconnect s) k =
      (if ws s = Some k \<and>
          (readyState (sockets s k) = OPEN \<or> readyState (sockets s k) = CONNECTING)
       then (sockets s k)\<lparr>readyState := CLOSING\<rparr> else sockets s k)) \<and>
   (ws s = Some h \<longrightarrow> h < next_socket s \<longrightarrow>
    (readyState (sockets s h) = OPEN \<or> readyState (sockets s h) = CONNECTING) \<longrightarrow>
    reconnectTimer s = None \<longrightarrow>
      readyState (sockets (disconnect s) h) = CLOSING \<and>
      reconnectTimer (step (WsClose h) (disconnect s)) = Some (Suc (timer_seq s)) \<and>
      timers (step (WsClose h) (disconnect s)) = timers s @ [(Suc (timer_seq s), 3000)] \<and>
      ws (step (TimerFire (Suc (timer_seq s))) (step (WsClose h) (disconnect s))) =
        Some (next_socket s) \<and>
      readyState (sockets (step (TimerFire (Suc (timer_seq s))) (step (WsClose h) (disconnect s)))
                    (next_socket s)) = CONNECTING) \<and>
   (\<forall>evs u t0 t. s = run evs (init u t0) \<longrightarrow> ws s = Some h \<longrightarrow> h < next_socket s \<longrightarrow>
    (readyState (sockets s h) = OPEN \<or> readyState (sockets s h) = CONNECTING) \<longrightarrow>
    reconnectTimer s = Some t \<longrightarrow>
      timers (disconnect s) = [(t, 3000)] \<and>
      reconnectTimer (step (WsClose h) (disconnect s)) = Some t \<and>
      timers (step (WsClose h) (disconnect s)) = [(t, 3000)] \<and>
      ws (step (TimerFire t) (step (WsClose h) (disconnect s))) = Some (next_socket s) \<and>
      readyState (sockets (step (TimerFire t) (step (WsClose h) (disconnect s)))
                    (next_socket s)) = CONNECTING)"
proof -
  have a: "(disconnect s)\<lparr>sockets := sockets s\<rparr> = s"
    by (cases "ws s") (simp_all add: disconnect_def ws_close_def)
  have b: "reconnectTimer (disconnect s) = reconnectTimer s \<and> timers (disconnect s) = timers s \<and>
   timer_seq (disconnect s) = timer_seq s \<and> pending (disconnect s) = pending s \<and>
   promises (disconnect s) = promises s \<and> ws (disconnect s) = ws s"
    by (cases "ws s") (simp_all add: disconnect_def ws_close_def)
  have c: "\<forall>k. sockets (disconnect s) k =
      (if ws s = Some k \<and>
          (readyState (sockets s k) = OPEN \<or> readyState (sockets s k) = CONNECTING)
       then (sockets s k)\<lparr>readyState := CLOSING\<rparr> else sockets s k)"
  proof
    fix k
    show "sockets (disconnect s) k =
      (if ws s = Some k \<and>
          (readyState (sockets s k) = OPEN \<or> readyState (sockets s k) = CONNECTING)
       then (sockets s k)\<lparr>readyState := CLOSING\<rparr> else sockets s k)"
    proof (cases "ws s")
      case None
      then show ?thesis by (simp add: disconnect_def)
    next
      case (Some j)
      then show ?thesis
        by (cases "readyState (sockets s j)") (auto simp: disconnect_def ws_close_def)
    qed
  qed
  define D where "D = s\<lparr>sockets := (sockets s)(h := (sockets s h)\<lparr>readyState := CLOSING\<rparr>)\<rparr>"
  have dD: "disconnect s = D"
    if "ws s = Some h" "readyState (sockets s h) = OPEN \<or> readyState (sockets s h) = CONNECTING"
    using that by (auto simp: D_def disconnect_def ws_close_def)
  have d: "readyState (sockets (disconnect s) h) = CLOSING \<and>
      reconnectTimer (step (WsClose h) (disconnect s)) = Some (Suc (timer_seq s)) \<and>
      timers (step (WsClose h) (disconnect s)) = timers s @ [(Suc (timer_seq s), 3000)] \<and>
      ws (step (TimerFire (Suc (timer_seq s))) (step (WsClose h) (disconnect s))) =
        Some (next_socket s) \<and>
      readyState (sockets (step (TimerFire (Suc (timer_seq s))) (step (WsClose h) (disconnect s)))
                    (next_socket s)) = CONNECTING"
    if w: "ws s = Some h" and n: "h < next_socket s"
      and r: "readyState (sockets s h) = OPEN \<or> readyState (sockets s h) = CONNECTING"
      and rt: "reconnectTimer s = None"
  proof -
    define C where "C = D\<lparr>sockets := (sockets D)(h := (sockets D h)\<lparr>readyState := CLOSED\<rparr>),
      status_calls := status_calls s @ [False],
      reconnectTimer := Some (Suc (timer_seq s)),
      timers := timers s @ [(Suc (timer_seq s), 3000)],
      timer_seq := Suc (timer_seq s)\<rparr>"
    from n rt have c: "step (WsClose h) D = C"
      by (simp add: C_def D_def onclose_def set_ready_def scheduleReconnect_def)
    have "Suc (timer_seq s) \<in> fst ` set (timers C)"
      by (simp add: C_def)
    then have f: "step (TimerFire (Suc (timer_seq s))) C =
      reconnect_callback (C\<lparr>timers := filter (\<lambda>td. fst td \<noteq> Suc (timer_seq s)) (timers C)\<rparr>)"
      by simp
    show ?thesis
      by (simp only: dD [OF w r] c f) (simp add: C_def D_def reconnect_callback_def connect_def)
  qed
  have e: "timers (disconnect s) = [(t, 3000)] \<and>
      reconnectTimer (step (WsClose h) (disconnect s)) = Some t \<and>
      timers (step (WsClose h) (disconnect s)) = [(t, 3000)] \<and>
      ws (step (TimerFire t) (step (WsClose h) (disconnect s))) = Some (next_socket s) \<and>
      readyState (sockets (step (TimerFire t) (step (WsClose h) (disconnect s)))
                    (next_socket s)) = CONNECTING"
    if reach: "s = run evs (init u t0)" and w: "ws s = Some h" and n: "h < next_socket s"
      and r: "readyState (sockets s h) = OPEN \<or> readyState (sockets s h) = CONNECTING"
      and rt: "reconnectTimer s = Some t" for evs u t0 t
  proof -
    have ok: "timer_ok s"
      unfolding reach by (rule reachable_ok)
    from ok rt have t0: "t \<noteq> 0" and ts: "timers s = [(t, 3000)]"
      by (simp_all add: timer_ok_def)
    define C where "C = D\<lparr>sockets := (sockets D)(h := (sockets D h)\<lparr>readyState := CLOSED\<rparr>),
      status_calls := status_calls s @ [False]\<rparr>"
    from n rt t0 have c: "step (WsClose h) D = C"
      by (simp add: C_def D_def onclose_def set_ready_def scheduleReconnect_def)
    have "t \<in> fst ` set (timers C)"
      by (simp add: C_def D_def ts)
    then have f: "step (TimerFire t) C =
      reconnect_callback (C\<lparr>timers := filter (\<lambda>td. fst td \<noteq> t) (timers C)\<rparr>)"
      by simp
    show ?thesis
      using rt ts
      by (simp only: dD [OF w r] c f) (simp add: C_def D_def reconnect_callback_def connect_def)
  qed
  from a b c d e show ?thesis
    by (elim conjE) (intro conjI allI impI; (assumption | blast))
qed

text \<open>
  C2, amended, at the run of the counterexample, where no reconnect is scheduled at the
  disconnect, and at a run with two sockets, where the close of the first has scheduled
  one before the caller disconnects the second.
\<close>

theorem C2_disconnect_then_reconnect_witness:
  "ws (step (TimerFire 1) (step (WsClose 0)
        (disconnect (run [Connect, WsOpen 0 ''a''] (init ''u'' ''t''))))) = Some 1 \<and>
   reconnectTimer (run [Connect, WsOpen 0 ''a'', Connect, WsOpen 1 ''b'', WsClose 0]
                     (init ''u'' ''t'')) = Some 1 \<and>
   timers (disconnect (run [Connect, WsOpen 0 ''a'', Connect, WsOpen 1 ''b'', WsClose 0]
                         (init ''u'' ''t''))) = [(1, 3000)] \<and>
   ws (step (TimerFire 1) (step (WsClose 1)
        (disconnect (run [Connect, WsOpen 0 ''a'', Connect, WsOpen 1 ''b'', WsClose 0]
                       (init ''u'' ''t''))))) = Some 2"
proof -
  let ?s = "run [Connect, WsOpen 0 ''a''] (init ''u'' ''t'')"
  let ?r = "run [Connect, WsOpen 0 ''a'', Connect, WsOpen 1 ''b'', WsClose 0] (init ''u'' ''t'')"
  have s1: "ws ?s = Some 0" by (simp add: eval_defs)
  have s2: "0 < next_socket ?s" by (simp add: eval_defs)
  have s3: "readyState (sockets ?s 0) = OPEN \<or> readyState (sockets ?s 0) = CONNECTING"
    by (simp add: eval_defs)
  have s4: "reconnectTimer ?s = None" by (simp add: eval_defs)
  have s5: "timer_seq ?s = 0" by (simp add: eval_defs)
  have s6: "next_socket ?s = 1" by (simp add: eval_defs)
  have r1: "ws ?r = Some 1" by (simp add: eval_defs)
  have r2: "1 < next_socket ?r" by (simp add: eval_defs)
  have r3: "readyState (sockets ?r 1) = OPEN \<or> readyState (sockets ?r 1) = CONNECTING"
    by (simp add: eval_defs)
  have r4: "reconnectTimer ?r = Some 1" by (simp add: eval_defs)
  have r6: "next_socket ?r = 2" by (simp add: eval_defs)
  note first = C2_disconnect_then_reconnect [of ?s 0, THEN conjunct2, THEN conjunct2, THEN conjunct2, THEN conjunct2,
      THEN conjunct2, THEN conjunct2, THEN conjunct2, THEN conjunct2, THEN conjunct1,
      rule_format, OF s1 s2 s3 s4]
  note second = C2_disconnect_then_reconnect [of ?r 1, THEN conjunct2, THEN conjunct2, THEN conjunct2, THEN conjunct2,
      THEN conjunct2, THEN conjunct2, THEN conjunct2, THEN conjunct2, THEN conjunct2,
      rule_format, OF refl r1 r2 r3 r4]
  from first have a: "ws (step (TimerFire (Suc (timer_seq ?s))) (step (WsClose 0) (disconnect ?s))) =
        Some (next_socket ?s)"
    by (elim conjE)
  from second have b: "timers (disconnect ?r) = [(1, 3000)]"
    by (elim conjE)
  from second have c: "ws (step (TimerFire 1) (step (WsClose 1) (disconnect ?r))) = Some (next_socket ?r)"
    by (elim conjE)
  from a [unfolded s5 s6] r4 b c [unfolded r6] show ?thesis
    by (simp only: One_nat_def simp_thms)
qed

subsection \<open>C3: responses are matched to requests by id\<close>

text \<open>
  C3 as stated fails for a request whose id is drawn again while it is outstanding. Two
  calls of \<^verbatim>\<open>request\<close> draw the id x; the first caller waits on promise 1, the second
  on promise 2, and the second call has replaced the entry of the first. Both are
  outstanding and the transport is open. A response with the id x resolves promise 2
  and removes the entry; promise 1 is not settled by it, nor by a second response with
  the same id.
\<close>

theorem C3_counterexample:
  "fst (request ''x'' ''first'' None (run [Connect, WsOpen 0 ''a''] (init ''u'' ''t''))) = Inr 1 \<and>
   transport_open (run [Connect, WsOpen 0 ''a'', Request ''x'' ''first'' None,
                        Request ''x'' ''second'' None] (init ''u'' ''t'')) \<and>
   promises (run [Connect, WsOpen 0 ''a'', Request ''x'' ''first'' None,
                  Request ''x'' ''second'' None] (init ''u'' ''t'')) 1 = None \<and>
   promises (run [Connect, WsOpen 0 ''a'', Request ''x'' ''first'' None,
                  Request ''x'' ''second'' None,
                  WsMessage 0 (Some (JObj [(''type'', JStr ''res''), (''id'', JStr ''x''),
                                           (''ok'', JBool True), (''payload'', JStr ''P'')]))]
               (init ''u'' ''t'')) 1 = None \<and>
   promises (run [Connect, WsOpen 0 ''a'', Request ''x'' ''first'' None,
                  Request ''x'' ''second'' None,
                  WsMessage 0 (Some (JObj [(''type'', JStr ''res''), (''id'', JStr ''x''),
                                           (''ok'', JBool True), (''payload'', JStr ''P'')]))]
               (init ''u'' ''t'')) 2 = Some (Resolved (Some (JStr ''P''))) \<and>
   pending (run [Connect, WsOpen 0 ''a'', Request ''x'' ''first'' None,
                 Request ''x'' ''second'' None,
                 WsMessage 0 (Some (JObj [(''type'', JStr ''res''), (''id'', JStr ''x''),
                                          (''ok'', JBool True), (''payload'', JStr ''P'')]))]
              (init ''u'' ''t'')) = [(''a'', 0)] \<and>
   promises (run [Connect, WsOpen 0 ''a'', Request ''x'' ''first'' None,
                  Request ''x'' ''second'' None,
                  WsMessage 0 (Some (JObj [(''type'', JStr ''res''), (''id'', JStr ''x''),
                                           (''ok'', JBool True), (''payload'', JStr ''P'')])),
                  WsMessage 0 (Some (JObj [(''type'', JStr ''res''), (''id'', JStr ''x''),
                                           (''ok'', JBool True), (''payload'', JStr ''P'')]))]
               (init ''u'' ''t'')) 1 = None"
  by (simp add: eval_defs)

text \<open>
  C3, amended: the claim holds for every outstanding request whose entry is the one the
  pending table holds under its id, that is, whose id has not been drawn again by a later
  request while it was outstanding. In a reachable state \<open>s\<close> with an open transport
  \<open>h\<close>, let \<open>p\<close> be the promise stored under the id \<open>i\<close>. A response frame \<open>f\<close> with
  that id settles \<open>p\<close>, which was not settled before: with the frame's payload when
  \<open>ok\<close> is true, with the frame's error when it is not. No other promise changes and
  only the entry of \<open>i\<close> leaves the table. For any second entry with another id \<open>j\<close>
  and promise \<open>q\<close>, and any response \<open>g\<close> to it, the two promises differ, and
  delivering \<open>f\<close> then \<open>g\<close> or \<open>g\<close> then \<open>f\<close> gives \<open>p\<close> the outcome of \<open>f\<close> and
  \<open>q\<close> the outcome of \<open>g\<close>. A new request is stored under its own id with the promise
  its caller gets.
\<close>

theorem C3_responses_matched_by_id:
  assumes reach: "s = run evs (init u t)"
    and op: "h < next_socket s" "readyState (sockets s h) = OPEN"
    and f: "get_prop f ''type'' = Some (JStr ''res'')" "get_prop f ''id'' = Some (JStr i)"
    and pi: "map_of (pending s) i = Some p"
  shows "promises s p = None \<and>
    promises (step (WsMessage h (Some f)) s) p =
      Some (if truthy (get_prop f ''ok'') then Resolved (get_prop f ''payload'')
            else Rejected (get_prop f ''error'')) \<and>
    (\<forall>q. q \<noteq> p \<longrightarrow> promises (step (WsMessage h (Some f)) s) q = promises s q) \<and>
    map_of (pending (step (WsMessage h (Some f)) s)) = (map_of (pending s))(i := None) \<and>
    (\<forall>g j q. get_prop g ''type'' = Some (JStr ''res'') \<and> get_prop g ''id'' = Some (JStr j) \<and>
       map_of (pending s) j = Some q \<and> i \<noteq> j \<longrightarrow>
       p \<noteq> q \<and>
       promises (run [WsMessage h (Some f), WsMessage h (Some g)] s) p = Some (response_outcome f) \<and>
       promises (run [WsMessage h (Some f), WsMessage h (Some g)] s) q = Some (response_outcome g) \<and>
       promises (run [WsMessage h (Some g), WsMessage h (Some f)] s) p = Some (response_outcome f) \<and>
       promises (run [WsMessage h (Some g), WsMessage h (Some f)] s) q = Some (response_outcome g)) \<and>
    (\<forall>rnd m prm. transport_open s \<longrightarrow>
       fst (request rnd m prm s) = Inr (next_promise s) \<and>
       map_of (pending (snd (request rnd m prm s))) rnd = Some (next_promise s))"
proof -
  have l: "fst (request rnd m prm s) = Inr (next_promise s) \<and>
       map_of (pending (snd (request rnd m prm s))) rnd = Some (next_promise s)"
    if "transport_open s" for rnd m prm
  proof -
    from that obtain k where k: "ws s = Some k" "readyState (sockets s k) = OPEN"
      by (auto simp: transport_open_def split: option.splits)
    have "fst (request rnd m prm s) = Inr (next_promise s)"
      by (simp add: request_open [OF k])
    moreover have "map_of (pending (snd (request rnd m prm s))) rnd = Some (next_promise s)"
      unfolding pending_request_open [OF k] by (simp add: map_of_map_set)
    ultimately show ?thesis
      by (rule conjI)
  qed
  have ok: "pending_ok s"
    unfolding reach by (rule reachable_ok)
  have s1: "step (WsMessage h (Some f)) s = dispatch_frame f s"
    by (rule step_message_open [OF op f(1)])
  have a: "promises s p = None"
    using pending_ok_lookup [OF ok pi] by simp
  have b: "promises (dispatch_frame f s) = (promises s)(p := Some (response_outcome f))"
    using dispatch_response_fields(1) [OF ok f pi] .
  have c: "map_of (pending (dispatch_frame f s)) = (map_of (pending s))(i := None)"
    using dispatch_response_fields(3) [OF ok f pi] .
  have d: "p \<noteq> q \<and>
       promises (run [WsMessage h (Some f), WsMessage h (Some g)] s) p = Some (response_outcome f) \<and>
       promises (run [WsMessage h (Some f), WsMessage h (Some g)] s) q = Some (response_outcome g) \<and>
       promises (run [WsMessage h (Some g), WsMessage h (Some f)] s) p = Some (response_outcome f) \<and>
       promises (run [WsMessage h (Some g), WsMessage h (Some f)] s) q = Some (response_outcome g)"
    if g: "get_prop g ''type'' = Some (JStr ''res'')" "get_prop g ''id'' = Some (JStr j)"
      and pj: "map_of (pending s) j = Some q" and ne: "i \<noteq> j" for g j q
  proof -
    have pq: "p \<noteq> q"
      using pending_ok_distinct_promises [OF ok pi pj ne] .
    have fg: "promises (run [WsMessage h (Some f), WsMessage h (Some g)] s) =
         (promises s)(p := Some (response_outcome f), q := Some (response_outcome g))"
      using two_responses [OF ok op f g pi pj ne] .
    have gf: "promises (run [WsMessage h (Some g), WsMessage h (Some f)] s) =
         (promises s)(q := Some (response_outcome g), p := Some (response_outcome f))"
      using two_responses [OF ok op g f pj pi] ne by simp
    from pq show ?thesis
      unfolding fg gf by simp
  qed
  have b1: "promises (dispatch_frame f s) p =
      Some (if truthy (get_prop f ''ok'') then Resolved (get_prop f ''payload'')
            else Rejected (get_prop f ''error''))"
    by (simp add: b response_outcome_def)
  have b2: "\<forall>q. q \<noteq> p \<longrightarrow> promises (dispatch_frame f s) q = promises s q"
    by (simp add: b)
  from a b1 b2 c d l show ?thesis
    unfolding s1 by blast
qed

text \<open>
  C3, amended, at a run with two outstanding requests (the handshake with id a and a
  request with id b): the response to b resolves promise 1 with its payload, and when
  the failing response to a arrives first, promise 0 is rejected with the error of that
  frame.
\<close>

theorem C3_responses_matched_by_id_witness:
  "map_of (pending (run [Connect, WsOpen 0 ''a'', Request ''b'' ''status'' None] (init ''u'' ''t''))) ''b'' = Some 1 \<and>
   map_of (pending (run [Connect, WsOpen 0 ''a'', Request ''b'' ''status'' None] (init ''u'' ''t''))) ''a'' = Some 0 \<and>
   promises (step (WsMessage 0 (Some (JObj [(''type'', JStr ''res''), (''id'', JStr ''b''),
               (''ok'', JBool True), (''payload'', JStr ''B'')])))
       (run [Connect, WsOpen 0 ''a'', Request ''b'' ''status'' None] (init ''u'' ''t''))) 1 =
     Some (Resolved (Some (JStr ''B''))) \<and>
   promises (run [WsMessage 0 (Some (JObj [(''type'', JStr ''res''), (''id'', JStr ''a''),
               (''ok'', JBool False), (''error'', JObj [(''code'', JStr ''E'')])])),
                  WsMessage 0 (Some (JObj [(''type'', JStr ''res''), (''id'', JStr ''b''),
               (''ok'', JBool True), (''payload'', JStr ''B'')]))]
       (run [Connect, WsOpen 0 ''a'', Request ''b'' ''status'' None] (init ''u'' ''t''))) 0 =
     Some (Rejected (Some (JObj [(''code'', JStr ''E'')])))"
proof -
  let ?s = "run [Connect, WsOpen 0 ''a'', Request ''b'' ''status'' None] (init ''u'' ''t'')"
  let ?f = "JObj [(''type'', JStr ''res''), (''id'', JStr ''b''), (''ok'', JBool True),
                  (''payload'', JStr ''B'')]"
  let ?g = "JObj [(''type'', JStr ''res''), (''id'', JStr ''a''), (''ok'', JBool False),
                  (''error'', JObj [(''code'', JStr ''E'')])]"
  have h1: "0 < next_socket ?s" by (simp add: eval_defs)
  have h2: "readyState (sockets ?s 0) = OPEN" by (simp add: eval_defs)
  have f1: "get_prop ?f ''type'' = Some (JStr ''res'')" by simp
  have f2: "get_prop ?f ''id'' = Some (JStr ''b'')" by simp
  have g1: "get_prop ?g ''type'' = Some (JStr ''res'')" by simp
  have g2: "get_prop ?g ''id'' = Some (JStr ''a'')" by simp
  have pb: "map_of (pending ?s) ''b'' = Some 1" by (simp add: eval_defs)
  have pa: "map_of (pending ?s) ''a'' = Some 0" by (simp add: eval_defs)
  have ne: "''b'' \<noteq> ''a''" by simp
  have rf: "response_outcome ?f = Resolved (Some (JStr ''B''))"
    by (simp add: response_outcome_def)
  have rg: "response_outcome ?g = Rejected (Some (JObj [(''code'', JStr ''E'')]))"
    by (simp add: response_outcome_def)
  note inst = C3_responses_matched_by_id [OF refl h1 h2 f1 f2 pb]
  from inst have single: "promises (step (WsMessage 0 (Some ?f)) ?s) 1 =
      Some (if truthy (get_prop ?f ''ok'') then Resolved (get_prop ?f ''payload'')
            else Rejected (get_prop ?f ''error''))"
    by blast
  from inst g1 g2 pa ne
  have both: "promises (run [WsMessage 0 (Some ?g), WsMessage 0 (Some ?f)] ?s) 0 =
      Some (response_outcome ?g)"
    by blast
  have val: "(if truthy (get_prop ?f ''ok'') then Resolved (get_prop ?f ''payload'')
            else Rejected (get_prop ?f ''error'')) = Resolved (Some (JStr ''B''))"
    by simp
  from pb pa single [unfolded val] both [unfolded rg] show ?thesis
    by blast
qed

subsection \<open>C4: request without an open transport\<close>

text \<open>
  C4: when the transport is not open (there is no socket, or the current socket is not in
  the state OPEN), \<^verbatim>\<open>request\<close> fails with the error "Not connected to gateway" and the
  whole state is as before: no frame is sent, the pending table and everything else is
  unchanged.
\<close>

theorem C4_request_not_connected:
  assumes "\<not> transport_open s"
  shows "request rnd method params s = (Inl (Error ''Not connected to gateway''), s) \<and>
         step (Request rnd method params) s = s"
  using assms by (cases "ws s") (simp_all add: request_def transport_open_def)

text \<open>C4 right after \<^verbatim>\<open>connect()\<close>, while the socket is still connecting.\<close>

theorem C4_request_not_connected_witness:
  "\<not> transport_open (run [Connect] (init ''u'' ''t'')) \<and>
   ws (run [Connect] (init ''u'' ''t'')) = Some 0 \<and>
   request ''r'' ''status'' None (run [Connect] (init ''u'' ''t'')) =
     (Inl (Error ''Not connected to gateway''), run [Connect] (init ''u'' ''t''))"
proof -
  have 1: "\<not> transport_open (run [Connect] (init ''u'' ''t''))"
    by (simp add: eval_defs)
  have 2: "ws (run [Connect] (init ''u'' ''t'')) = Some 0"
    by (simp add: eval_defs)
  from C4_request_not_connected [OF 1, of "''r''" "''status''" None] 1 2 show ?thesis
    by blast
qed

subsection \<open>C5: a response nobody waits for\<close>

text \<open>
  C5: a response frame whose id is the key of no entry of the pending table is processed
  without an exception and leaves the whole state as it was: no promise is settled, the
  table is unchanged and the event handler is not called. It holds for the callback and
  for the message event of any socket \<open>h\<close>.
\<close>

theorem C5_unmatched_response_ignored:
  assumes "get_prop f ''type'' = Some (JStr ''res'')"
    and "\<forall>i \<in> fst ` set (pending s). get_prop f ''id'' \<noteq> Some (JStr i)"
  shows "onmessage (Some f) s = Inr s \<and> step (WsMessage h (Some f)) s = s"
proof -
  have "pending_get (pending s) (get_prop f ''id'') = None"
    using assms(2) by (rule pending_get_no_key)
  then have "dispatch_frame f s = s"
    using assms(1) by (simp add: dispatch_unmatched)
  moreover have "onmessage (Some f) s = Inr (dispatch_frame f s)"
    using assms(1) by (rule onmessage_frame)
  ultimately show ?thesis by simp
qed

text \<open>C5 for a response with the id zz while only the handshake is outstanding.\<close>

theorem C5_unmatched_response_ignored_witness:
  "pending (run [Connect, WsOpen 0 ''a''] (init ''u'' ''t'')) = [(''a'', 0)] \<and>
   step (WsMessage 0 (Some (JObj [(''type'', JStr ''res''), (''id'', JStr ''zz''),
           (''ok'', JBool True), (''payload'', JStr ''B'')])))
     (run [Connect, WsOpen 0 ''a''] (init ''u'' ''t'')) =
   run [Connect, WsOpen 0 ''a''] (init ''u'' ''t'')"
proof -
  let ?s = "run [Connect, WsOpen 0 ''a''] (init ''u'' ''t'')"
  let ?f = "JObj [(''type'', JStr ''res''), (''id'', JStr ''zz''), (''ok'', JBool True),
                  (''payload'', JStr ''B'')]"
  have p: "pending ?s = [(''a'', 0)]" by (simp add: eval_defs)
  have 1: "get_prop ?f ''type'' = Some (JStr ''res'')" by simp
  have 2: "\<forall>i \<in> fst ` set (pending ?s). get_prop ?f ''id'' \<noteq> Some (JStr i)"
    unfolding p by simp
  from C5_unmatched_response_ignored [OF 1 2, of 0] p show ?thesis
    by blast
qed

subsection \<open>C6: at most one reconnect timer\<close>

text \<open>
  C6: in every reachable state at most one timeout is set, it is set exactly when a
  reconnect is recorded, and its delay is 3000 ms. The close callback sets one timeout
  of 3000 ms when none is set and sets nothing when one is. So the close event of a
  socket \<open>h\<close> leaves exactly one timeout behind, and any further close events \<open>hs\<close>
  that arrive before it fires leave the timeouts as they are.
\<close>

theorem C6_one_reconnect_timer:
  assumes "s = run evs (init u t)"
  shows "length (timers s) \<le> 1 \<and>
    (timers s = [] \<longleftrightarrow> reconnectTimer s = None) \<and>
    (\<forall>td \<in> set (timers s). snd td = 3000) \<and>
    timers (onclose s) = (if timers s = [] then [(Suc (timer_seq s), 3000)] else timers s) \<and>
    (\<forall>h. h < next_socket s \<and> readyState (sockets s h) \<noteq> CLOSED \<longrightarrow>
       timers (step (WsClose h) s) =
         (if timers s = [] then [(Suc (timer_seq s), 3000)] else timers s) \<and>
       (\<forall>hs. timers (run (map WsClose hs) (step (WsClose h) s)) = timers (step (WsClose h) s)))"
proof -
  have ok: "timer_ok s"
    unfolding assms by (rule reachable_ok)
  have more: "timers (run (map WsClose hs) (step (WsClose h) s)) = timers (step (WsClose h) s)"
    if "h < next_socket s" "readyState (sockets s h) \<noteq> CLOSED" for h hs
  proof (rule timers_more_closes)
    show "timer_ok (step (WsClose h) s)"
      using ok by (rule timer_ok_step)
    show "timers (step (WsClose h) s) \<noteq> []"
      unfolding timers_step_close [OF ok that] by simp
  qed
  from timer_ok_short [OF ok] timer_ok_empty_iff [OF ok] timer_ok_delays [OF ok]
    timers_onclose [OF ok] timers_step_close [OF ok] more
  show ?thesis by blast
qed

text \<open>
  C6 with two open sockets: the close of the first sets the timeout 1, the close of the
  second adds none.
\<close>

theorem C6_one_reconnect_timer_witness:
  "timers (run [Connect, WsOpen 0 ''a'', Connect, WsOpen 1 ''b''] (init ''u'' ''t'')) = [] \<and>
   timers (step (WsClose 0) (run [Connect, WsOpen 0 ''a'', Connect, WsOpen 1 ''b''] (init ''u'' ''t''))) = [(1, 3000)] \<and>
   timers (run (map WsClose [1]) (step (WsClose 0)
      (run [Connect, WsOpen 0 ''a'', Connect, WsOpen 1 ''b''] (init ''u'' ''t'')))) = [(1, 3000)]"
proof -
  let ?s = "run [Connect, WsOpen 0 ''a'', Connect, WsOpen 1 ''b''] (init ''u'' ''t'')"
  have t: "timers ?s = []" by (simp add: eval_defs)
  have q: "timer_seq ?s = 0" by (simp add: eval_defs)
  have h: "0 < next_socket ?s \<and> readyState (sockets ?s 0) \<noteq> CLOSED" by (simp add: eval_defs)
  note inst = C6_one_reconnect_timer [OF refl, of "[Connect, WsOpen 0 ''a'', Connect, WsOpen 1 ''b'']" "''u''" "''t''"]
  from inst h have a: "timers (step (WsClose 0) ?s) =
         (if timers ?s = [] then [(Suc (timer_seq ?s), 3000)] else timers ?s)"
    by blast
  from inst h have b: "timers (run (map WsClose [1]) (step (WsClose 0) ?s)) = timers (step (WsClose 0) ?s)"
    by blast
  have a': "timers (step (WsClose 0) ?s) = [(1, 3000)]"
    unfolding a unfolding t q by simp
  from t a' b show ?thesis by simp
qed

subsection \<open>C7: request ids and the pending table\<close>

text \<open>
  C7 as stated fails: the id is what the random generator yields and is not compared with
  the outstanding ids. When two calls of \<^verbatim>\<open>request\<close> draw the same string x while the
  first is outstanding, the second call replaces the entry of the first: the table then
  holds promise 2 under x and promise 1 is in no entry.
\<close>

theorem C7_counterexample:
  "pending (run [Connect, WsOpen 0 ''a'', Request ''x'' ''first'' None] (init ''u'' ''t'')) =
     [(''a'', 0), (''x'', 1)] \<and>
   pending (run [Connect, WsOpen 0 ''a'', Request ''x'' ''first'' None, Request ''x'' ''second'' None]
              (init ''u'' ''t'')) = [(''a'', 0), (''x'', 2)]"
  by (simp add: eval_defs)

text \<open>
  C7, amended: in every reachable state the pending table holds at most one entry per
  request id, also after a further \<^verbatim>\<open>request\<close>. The id of a request is the string the
  random generator yields, taken unchecked. When that string is not the id of an
  outstanding request, the new entry is appended and every existing entry stays as it
  is; when it is, the entry under that id is replaced by the new one.
\<close>

theorem C7_fresh_id_keeps_entries:
  assumes reach: "s = run evs (init u t)" and op: "transport_open s"
  shows "distinct (map fst (pending s)) \<and>
    distinct (map fst (pending (snd (request rnd m p s)))) \<and>
    fst (request rnd m p s) = Inr (next_promise s) \<and>
    (rnd \<notin> fst ` set (pending s) \<longrightarrow>
       pending (snd (request rnd m p s)) = pending s @ [(rnd, next_promise s)]) \<and>
    (rnd \<in> fst ` set (pending s) \<longrightarrow>
       length (pending (snd (request rnd m p s))) = length (pending s) \<and>
       map_of (pending (snd (request rnd m p s))) rnd = Some (next_promise s))"
proof -
  from op obtain h where h: "ws s = Some h" "readyState (sockets s h) = OPEN"
    by (auto simp: transport_open_def split: option.splits)
  have ok: "pending_ok s"
    unfolding reach by (rule reachable_ok)
  have pe: "pending (snd (request rnd m p s)) = map_set rnd (next_promise s) (pending s)"
    using h by (rule pending_request_open)
  have d0: "distinct (map fst (pending s))"
    using ok by (simp add: pending_ok_def)
  have d1: "distinct (map fst (pending (snd (request rnd m p s))))"
    unfolding pe using d0 by (rule distinct_keys_map_set)
  have r: "fst (request rnd m p s) = Inr (next_promise s)"
    by (simp add: request_open [OF h])
  have a: "pending (snd (request rnd m p s)) = pending s @ [(rnd, next_promise s)]"
    if "rnd \<notin> fst ` set (pending s)"
    unfolding pe using that by (rule map_set_fresh)
  have b: "length (pending (snd (request rnd m p s))) = length (pending s) \<and>
       map_of (pending (snd (request rnd m p s))) rnd = Some (next_promise s)"
    if "rnd \<in> fst ` set (pending s)"
    unfolding pe using that by (simp add: length_map_set_present map_of_map_set)
  from d0 d1 r a b show ?thesis by blast
qed

text \<open>C7, amended, for a request that draws x while only the handshake a is outstanding.\<close>

theorem C7_fresh_id_keeps_entries_witness:
  "transport_open (run [Connect, WsOpen 0 ''a''] (init ''u'' ''t'')) \<and>
   pending (run [Connect, WsOpen 0 ''a''] (init ''u'' ''t'')) = [(''a'', 0)] \<and>
   pending (snd (request ''x'' ''first'' None (run [Connect, WsOpen 0 ''a''] (init ''u'' ''t'')))) =
     [(''a'', 0), (''x'', 1)]"
proof -
  let ?s = "run [Connect, WsOpen 0 ''a''] (init ''u'' ''t'')"
  have op: "transport_open ?s" by (simp add: eval_defs)
  have pe: "pending ?s = [(''a'', 0)]" by (simp add: eval_defs)
  have np: "next_promise ?s = 1" by (simp add: eval_defs)
  have fresh: "''x'' \<notin> fst ` set (pending ?s)" unfolding pe by simp
  from C7_fresh_id_keeps_entries [OF refl op, of "''x''" "''first''" None] fresh
  have "pending (snd (request ''x'' ''first'' None ?s)) = pending ?s @ [(''x'', next_promise ?s)]"
    by blast
  then have "pending (snd (request ''x'' ''first'' None ?s)) = [(''a'', 0), (''x'', 1)]"
    unfolding pe np by simp
  with op pe show ?thesis by blast
qed

subsection \<open>C8: the discriminator field of a frame\<close>

text \<open>
  C8 as stated fails: the frame \<^verbatim>\<open>request\<close> sends has the field \<open>type\<close> and no field
  \<open>kind\<close>, and an inbound frame that carries \<open>kind: "event"\<close> is not delivered to the
  event handler, while the same frame with \<open>type: "event"\<close> is.
\<close>

theorem C8_counterexample:
  "last (sent (sockets (run [Connect, WsOpen 0 ''a'', Request ''b'' ''status'' None]
                          (init ''u'' ''t'')) 0)) =
     JObj [(''type'', JStr ''req''), (''id'', JStr ''b''), (''method'', JStr ''status''),
           (''params'', JObj [])] \<and>
   get_prop (last (sent (sockets (run [Connect, WsOpen 0 ''a'', Request ''b'' ''status'' None]
                          (init ''u'' ''t'')) 0))) ''kind'' = None \<and>
   event_calls (run [Connect, WsOpen 0 ''a'',
        WsMessage 0 (Some (JObj [(''kind'', JStr ''event''), (''event'', JStr ''tick'')]))]
      (init ''u'' ''t'')) = [] \<and>
   event_calls (run [Connect, WsOpen 0 ''a'',
        WsMessage 0 (Some (JObj [(''type'', JStr ''event''), (''event'', JStr ''tick'')]))]
      (init ''u'' ''t'')) = [(Some (JStr ''tick''), None)]"
  by (simp add: eval_defs)

text \<open>
  C8, amended: the discriminator field is named \<open>type\<close>. A request sent by
  \<^verbatim>\<open>request\<close> over the open transport has exactly the shape
  \<open>{type: "req", id, method, params}\<close> (params being \<open>{}\<close> when the caller gives none). An
  inbound frame is handled as an event when its \<open>type\<close> is "event", and a message whose
  \<open>type\<close> is neither "res" nor "event" changes nothing. (Frames with the type "res"
  are the subject of C3 and C5.)
\<close>

theorem C8_frames_discriminated_by_type:
  assumes h: "ws s = Some h" "readyState (sockets s h) = OPEN" and n: "h < next_socket s"
  shows "sent (sockets (snd (request rnd m p s)) h) =
      sent (sockets s h) @
        [JObj [(''type'', JStr ''req''), (''id'', JStr rnd), (''method'', JStr m),
               (''params'', (case p of None \<Rightarrow> JObj [] | Some v \<Rightarrow> v))]] \<and>
    (\<forall>f. get_prop f ''type'' = Some (JStr ''event'') \<longrightarrow>
       event_calls (step (WsMessage h (Some f)) s) =
         event_calls s @ [(get_prop f ''event'', get_prop f ''payload'')]) \<and>
    (\<forall>f. get_prop f ''type'' \<noteq> Some (JStr ''res'') \<and>
         get_prop f ''type'' \<noteq> Some (JStr ''event'') \<longrightarrow>
       step (WsMessage h (Some f)) s = s)"
proof -
  have a: "sent (sockets (snd (request rnd m p s)) h) =
      sent (sockets s h) @
        [JObj [(''type'', JStr ''req''), (''id'', JStr rnd), (''method'', JStr m),
               (''params'', (case p of None \<Rightarrow> JObj [] | Some v \<Rightarrow> v))]]"
    by (simp add: request_open [OF h] ws_send_def request_frame_def)
  have b: "event_calls (step (WsMessage h (Some f)) s) =
         event_calls s @ [(get_prop f ''event'', get_prop f ''payload'')]"
    if "get_prop f ''type'' = Some (JStr ''event'')" for f
    unfolding step_message_open [OF n h(2) that] by (simp add: dispatch_event [OF that])
  from a b step_message_not_frame show ?thesis by blast
qed

text \<open>C8, amended, for one request and for an inbound frame that has \<open>kind\<close> but no \<open>type\<close>.\<close>

theorem C8_frames_discriminated_by_type_witness:
  "ws (run [Connect, WsOpen 0 ''a''] (init ''u'' ''t'')) = Some 0 \<and>
   sent (sockets (snd (request ''b'' ''status'' None (run [Connect, WsOpen 0 ''a''] (init ''u'' ''t'')))) 0) =
     sent (sockets (run [Connect, WsOpen 0 ''a''] (init ''u'' ''t'')) 0) @
       [JObj [(''type'', JStr ''req''), (''id'', JStr ''b''), (''method'', JStr ''status''),
              (''params'', JObj [])]] \<and>
   step (WsMessage 0 (Some (JObj [(''kind'', JStr ''event''), (''event'', JStr ''tick'')])))
     (run [Connect, WsOpen 0 ''a''] (init ''u'' ''t'')) = run [Connect, WsOpen 0 ''a''] (init ''u'' ''t'')"
proof -
  let ?s = "run [Connect, WsOpen 0 ''a''] (init ''u'' ''t'')"
  let ?f = "JObj [(''kind'', JStr ''event''), (''event'', JStr ''tick'')]"
  have 1: "ws ?s = Some 0" by (simp add: eval_defs)
  have 2: "readyState (sockets ?s 0) = OPEN" by (simp add: eval_defs)
  have 3: "0 < next_socket ?s" by (simp add: eval_defs)
  have 4: "get_prop ?f ''type'' \<noteq> Some (JStr ''res'') \<and> get_prop ?f ''type'' \<noteq> Some (JStr ''event'')"
    by simp
  note inst = C8_frames_discriminated_by_type [OF 1 2 3, of "''b''" "''status''" None]
  from inst have a: "sent (sockets (snd (request ''b'' ''status'' None ?s)) 0) =
      sent (sockets ?s 0) @
        [JObj [(''type'', JStr ''req''), (''id'', JStr ''b''), (''method'', JStr ''status''),
               (''params'', (case None of None \<Rightarrow> JObj [] | Some v \<Rightarrow> v))]]"
    by blast
  from inst 4 have b: "step (WsMessage 0 (Some ?f)) ?s = ?s"
    by blast
  from 1 a b show ?thesis
    by (simp only: option.case) 
qed

subsection \<open>C9: events reach the handler in arrival order\<close>

text \<open>
  C9: on an open transport \<open>h\<close>, in any state (whatever the pending table holds), a
  sequence \<open>fs\<close> of event frames makes the client call \<^verbatim>\<open>this.onEvent\<close> once per frame,
  in the order of the frames, with the event name and the payload of that frame; the
  pending table and the promises stay as they are. More generally, for any sequence
  \<open>ds\<close> of inbound messages (events, responses, anything else), the calls made are those
  of the event frames among them, in arrival order.
\<close>

theorem C9_events_delivered_in_order:
  assumes op: "h < next_socket s" "readyState (sockets s h) = OPEN"
  shows "(\<forall>fs. (\<forall>f \<in> set fs. get_prop f ''type'' = Some (JStr ''event'')) \<longrightarrow>
      event_calls (run (map (\<lambda>f. WsMessage h (Some f)) fs) s) =
        event_calls s @ map (\<lambda>f. (get_prop f ''event'', get_prop f ''payload'')) fs \<and>
      pending (run (map (\<lambda>f. WsMessage h (Some f)) fs) s) = pending s \<and>
      promises (run (map (\<lambda>f. WsMessage h (Some f)) fs) s) = promises s) \<and>
    (\<forall>ds. event_calls (run (map (WsMessage h) ds) s) = event_calls s @ concat (map event_args ds))"
proof -
  have a: "event_calls (run (map (\<lambda>f. WsMessage h (Some f)) fs) s) =
        event_calls s @ map (\<lambda>f. (get_prop f ''event'', get_prop f ''payload'')) fs"
    if ev: "\<forall>f \<in> set fs. get_prop f ''type'' = Some (JStr ''event'')" for fs
  proof -
    have "map (\<lambda>f. WsMessage h (Some f)) fs = map (WsMessage h) (map Some fs)"
      by simp
    then show ?thesis
      using event_calls_messages [OF op, of "map Some fs"] event_args_events [OF ev]
      by (simp only:)
  qed
  from a event_frames_only [OF op] event_calls_messages [OF op] show ?thesis
    by blast
qed

text \<open>
  C9 for two chat.stream events with the deltas a and b, delivered while two requests
  are outstanding.
\<close>

theorem C9_events_delivered_in_order_witness:
  "length (pending (run [Connect, WsOpen 0 ''a'', Request ''b'' ''status'' None] (init ''u'' ''t''))) = 2 \<and>
   event_calls (run (map (\<lambda>f. WsMessage 0 (Some f))
       [JObj [(''type'', JStr ''event''), (''event'', JStr ''chat.stream''),
              (''payload'', JObj [(''delta'', JStr ''a'')])],
        JObj [(''type'', JStr ''event''), (''event'', JStr ''chat.stream''),
              (''payload'', JObj [(''delta'', JStr ''b'')])]])
     (run [Connect, WsOpen 0 ''a'', Request ''b'' ''status'' None] (init ''u'' ''t''))) =
   [(Some (JStr ''chat.stream''), Some (JObj [(''delta'', JStr ''a'')])),
    (Some (JStr ''chat.stream''), Some (JObj [(''delta'', JStr ''b'')]))]"
proof -
  let ?s = "run [Connect, WsOpen 0 ''a'', Request ''b'' ''status'' None] (init ''u'' ''t'')"
  let ?fs = "[JObj [(''type'', JStr ''event''), (''event'', JStr ''chat.stream''),
              (''payload'', JObj [(''delta'', JStr ''a'')])],
        JObj [(''type'', JStr ''event''), (''event'', JStr ''chat.stream''),
              (''payload'', JObj [(''delta'', JStr ''b'')])]]"
  have 1: "0 < next_socket ?s" by (simp add: eval_defs)
  have 2: "readyState (sockets ?s 0) = OPEN" by (simp add: eval_defs)
  have 3: "\<forall>f \<in> set ?fs. get_prop f ''type'' = Some (JStr ''event'')" by simp
  have 4: "event_calls ?s = []" by (simp add: eval_defs)
  have 5: "length (pending ?s) = 2" by (simp add: eval_defs)
  have 6: "map (\<lambda>f. (get_prop f ''event'', get_prop f ''payload'')) ?fs =
     [(Some (JStr ''chat.stream''), Some (JObj [(''delta'', JStr ''a'')])),
      (Some (JStr ''chat.stream''), Some (JObj [(''delta'', JStr ''b'')]))]"
    by simp
  from C9_events_delivered_in_order [OF 1 2] 3
  have "event_calls (run (map (\<lambda>f. WsMessage 0 (Some f)) ?fs) ?s) =
        event_calls ?s @ map (\<lambda>f. (get_prop f ''event'', get_prop f ''payload'')) ?fs"
    by blast
  then have "event_calls (run (map (\<lambda>f. WsMessage 0 (Some f)) ?fs) ?s) =
     [(Some (JStr ''chat.stream''), Some (JObj [(''delta'', JStr ''a'')])),
      (Some (JStr ''chat.stream''), Some (JObj [(''delta'', JStr ''b'')]))]"
    unfolding 4 6 by simp
  with 5 show ?thesis by blast
qed

subsection \<open>C10: what connect changes\<close>

text \<open>
  C10: \<^verbatim>\<open>connect()\<close> changes the transport handle and nothing else of the client. Putting
  back the old handle and the old socket store gives the state before the call; the new
  handle is a new socket in the state CONNECTING, every other socket is as it was (none
  is closed), and the pending table, the reconnect timer, the timeouts and the promises
  are unchanged. So in a reachable state an entry recorded before the call, with id
  \<open>i\<close> and promise \<open>p\<close>, is still in the table once the new transport has opened
  (its handshake drawing an id \<open>rnd\<close> other than \<open>i\<close>), and a response frame with the
  id \<open>i\<close> that arrives on the new transport settles \<open>p\<close>.
\<close>

theorem C10_connect_keeps_pending:
  "connect s\<lparr>ws := ws s, sockets := sockets s, next_socket := next_socket s\<rparr> = s \<and>
   ws (connect s) = Some (next_socket s) \<and>
   sockets (connect s) (next_socket s) = \<lparr>readyState = CONNECTING, sent = []\<rparr> \<and>
   (\<forall>h. h \<noteq> next_socket s \<longrightarrow> sockets (connect s) h = sockets s h) \<and>
   pending (connect s) = pending s \<and> reconnectTimer (connect s) = reconnectTimer s \<and>
   timers (connect s) = timers s \<and> promises (connect s) = promises s \<and>
   (\<forall>evs u t i p f rnd.
      s = run evs (init u t) \<longrightarrow> map_of (pending s) i = Some p \<longrightarrow>
      get_prop f ''type'' = Some (JStr ''res'') \<longrightarrow> get_prop f ''id'' = Some (JStr i) \<longrightarrow>
      rnd \<noteq> i \<longrightarrow>
      map_of (pending (step (WsOpen (next_socket s) rnd) (connect s))) i = Some p \<and>
      promises (run [Connect, WsOpen (next_socket s) rnd, WsMessage (next_socket s) (Some f)] s) p =
        Some (response_outcome f))"
proof -
  have a: "connect s\<lparr>ws := ws s, sockets := sockets s, next_socket := next_socket s\<rparr> = s"
    by (simp add: connect_def)
  have b: "ws (connect s) = Some (next_socket s) \<and>
      sockets (connect s) (next_socket s) = \<lparr>readyState = CONNECTING, sent = []\<rparr> \<and>
      (\<forall>h. h \<noteq> next_socket s \<longrightarrow> sockets (connect s) h = sockets s h)"
    by (simp add: connect_def)
  have c: "pending (connect s) = pending s \<and> reconnectTimer (connect s) = reconnectTimer s \<and>
      timers (connect s) = timers s \<and> promises (connect s) = promises s"
    by simp
  have d: "\<forall>evs u t i p f rnd.
      s = run evs (init u t) \<longrightarrow> map_of (pending s) i = Some p \<longrightarrow>
      get_prop f ''type'' = Some (JStr ''res'') \<longrightarrow> get_prop f ''id'' = Some (JStr i) \<longrightarrow>
      rnd \<noteq> i \<longrightarrow>
      map_of (pending (step (WsOpen (next_socket s) rnd) (connect s))) i = Some p \<and>
      promises (run [Connect, WsOpen (next_socket s) rnd, WsMessage (next_socket s) (Some f)] s) p =
        Some (response_outcome f)"
  proof (intro allI impI)
    fix evs u t i p f rnd
    assume reach: "s = run evs (init u t)" and look: "map_of (pending s) i = Some p"
      and f: "get_prop f ''type'' = Some (JStr ''res'')" "get_prop f ''id'' = Some (JStr i)"
      and ne: "rnd \<noteq> i"
    have ok: "pending_ok s"
      unfolding reach by (rule reachable_ok)
    have "map_of (pending (step (WsOpen (next_socket s) rnd) (connect s))) i = Some p"
      unfolding pending_after_reconnect using look ne by (simp add: map_of_map_set)
    moreover note response_after_reconnect [OF ok look f ne]
    ultimately show "map_of (pending (step (WsOpen (next_socket s) rnd) (connect s))) i = Some p \<and>
      promises (run [Connect, WsOpen (next_socket s) rnd, WsMessage (next_socket s) (Some f)] s) p =
        Some (response_outcome f)"
      by (rule conjI)
  qed
  from a b c d show ?thesis
    by (elim conjE) (intro conjI; assumption)
qed

text \<open>
  C10 for a request b that was outstanding when the first transport closed: after the
  reconnect, a response to b on the new transport resolves its promise.
\<close>

theorem C10_connect_keeps_pending_witness:
  "map_of (pending (run [Connect, WsOpen 0 ''a'', Request ''b'' ''status'' None, WsClose 0]
                      (init ''u'' ''t''))) ''b'' = Some 1 \<and>
   promises (run [Connect, WsOpen 1 ''c'',
                  WsMessage 1 (Some (JObj [(''type'', JStr ''res''), (''id'', JStr ''b''),
                                           (''ok'', JBool True), (''payload'', JStr ''late'')]))]
       (run [Connect, WsOpen 0 ''a'', Request ''b'' ''status'' None, WsClose 0] (init ''u'' ''t''))) 1 =
     Some (Resolved (Some (JStr ''late'')))"
proof -
  let ?s = "run [Connect, WsOpen 0 ''a'', Request ''b'' ''status'' None, WsClose 0] (init ''u'' ''t'')"
  let ?f = "JObj [(''type'', JStr ''res''), (''id'', JStr ''b''), (''ok'', JBool True),
                  (''payload'', JStr ''late'')]"
  have n: "next_socket ?s = 1" by (simp add: eval_defs)
  have pb: "map_of (pending ?s) ''b'' = Some 1" by (simp add: eval_defs)
  have f1: "get_prop ?f ''type'' = Some (JStr ''res'')" by simp
  have f2: "get_prop ?f ''id'' = Some (JStr ''b'')" by simp
  have ne: "''c'' \<noteq> ''b''" by simp
  have rf: "response_outcome ?f = Resolved (Some (JStr ''late''))"
    by (simp add: response_outcome_def)
  note inst = C10_connect_keeps_pending [of ?s, THEN conjunct2, THEN conjunct2, THEN conjunct2,
      THEN conjunct2, THEN conjunct2, THEN conjunct2, THEN conjunct2, THEN conjunct2, rule_format,
      OF refl pb f1 f2 ne, THEN conjunct2]
  have "promises (run [Connect, WsOpen 1 ''c'', WsMessage 1 (Some ?f)] ?s) 1 =
      Some (Resolved (Some (JStr ''late'')))"
    using inst unfolding n rf .
  with pb show ?thesis by (rule conjI)
qed

end
